theory Spec2Isabelle
  imports Complex_Main "HOL-Library.Multiset"
begin

section \<open>Common vocabulary\<close>

text \<open>
  Python exceptions that the modelled code can raise. Every raise of the source is a
  branch of the model returning \<open>Inl\<close> of one of these.
\<close>

datatype py_error = ValueError | IndexError | KeyError | ZeroDivisionError | AssertionError

text \<open>
  Python list indexing \<^verbatim>\<open>xs[i]\<close>: a negative index counts from the end, and an
  index outside \<open>[-len, len)\<close> raises IndexError.
\<close>

definition py_get :: "'a list \<Rightarrow> int \<Rightarrow> py_error + 'a" where
  "py_get xs i =
     (if 0 \<le> i \<and> i < int (length xs) then Inr (xs ! nat i)
      else if i < 0 \<and> - int (length xs) \<le> i then Inr (xs ! nat (int (length xs) + i))
      else Inl IndexError)"

text \<open>
  Modelled from the spec: the class \<^verbatim>\<open>Treasure\<close> of treasure.py is missing from the
  sources. Spec 3: an immutable record of a value and a weight. Both are integers here;
  hollows.py and maze.py read exactly these two attributes, and a treasure object is truthy.
\<close>

record treasure =
  tvalue :: int
  weight :: int

section \<open>Sequence sorter (algorithms/mergesort.py)\<close>

text \<open>
  Modelled from the spec: \<^verbatim>\<open>mergesort\<close> of algorithms/mergesort.py is missing from the
  sources. Spec 4.1: a merge-based divide-and-conquer sort returning the same elements in
  non-decreasing key order, stable for equal keys. The merge of two sorted lists takes the
  left element on equal keys.
\<close>

fun merge :: "('k::linorder \<times> 'i) list \<Rightarrow> ('k \<times> 'i) list \<Rightarrow> ('k \<times> 'i) list" where
  "merge [] ys = ys"
| "merge xs [] = xs"
| "merge (x # xs) (y # ys) =
     (if fst x \<le> fst y then x # merge xs (y # ys) else y # merge (x # xs) ys)"

text \<open>
  Modelled from the spec: \<^verbatim>\<open>mergesort(elements)\<close>, halving the list and merging the
  sorted halves (spec 4.1).
\<close>

function mergesort :: "('k::linorder \<times> 'i) list \<Rightarrow> ('k \<times> 'i) list" where
  "mergesort xs =
     (if length xs \<le> 1 then xs
      else merge (mergesort (take (length xs div 2) xs))
                 (mergesort (drop (length xs div 2) xs)))"
  by pat_completeness auto
termination
  by (relation "measure length") auto

declare mergesort.simps [simp del]

section \<open>Binary search tree (data_structures/bst.py)\<close>

text \<open>
  Modelled from the spec: the class \<^verbatim>\<open>BinarySearchTree\<close> of data_structures/bst.py is
  missing from the sources. Spec 2, 3 and 4.2: a binary search tree keyed by a totally
  ordered key with insert, delete-by-key and in-order traversal; keys need not be unique;
  every key of a left subtree is \<open>\<le>\<close> the node key and every key of a right subtree is
  \<open>\<ge>\<close> it. Spec 7: deleting a key that is not present fails loudly.
\<close>

datatype ('k, 'i) bst = Leaf | Node "('k, 'i) bst" 'k 'i "('k, 'i) bst"

text \<open>Modelled from the spec: the in-order traversal, in ascending key order (spec 4.2).\<close>

fun inorder :: "('k, 'i) bst \<Rightarrow> ('k \<times> 'i) list" where
  "inorder Leaf = []"
| "inorder (Node l k v r) = inorder l @ (k, v) # inorder r"

text \<open>Modelled from the spec: \<^verbatim>\<open>len(tree)\<close>, the number of nodes.\<close>

fun bst_len :: "('k, 'i) bst \<Rightarrow> nat" where
  "bst_len Leaf = 0"
| "bst_len (Node l k v r) = bst_len l + 1 + bst_len r"

text \<open>
  Modelled from the spec: \<^verbatim>\<open>tree[key] = item\<close>, the ordinary insert at a leaf. Keys
  need not be unique (spec 3); an equal key goes to the right.
\<close>

fun insert_aux :: "('k::linorder, 'i) bst \<Rightarrow> 'k \<Rightarrow> 'i \<Rightarrow> ('k, 'i) bst" where
  "insert_aux Leaf key item = Node Leaf key item Leaf"
| "insert_aux (Node l k v r) key item =
     (if key < k then Node (insert_aux l key item) k v r
      else Node l k v (insert_aux r key item))"

text \<open>
  Modelled from the spec: the leftmost node of the non-empty tree \<open>Node l k v r\<close>, and the
  tree without it (used by the deletion of a node with two children).
\<close>

fun get_minimal :: "('k, 'i) bst \<Rightarrow> 'k \<Rightarrow> 'i \<Rightarrow> ('k, 'i) bst \<Rightarrow> ('k \<times> 'i) \<times> ('k, 'i) bst" where
  "get_minimal Leaf k v r = ((k, v), r)"
| "get_minimal (Node ll lk lv lr) k v r =
     (case get_minimal ll lk lv lr of (m, l') \<Rightarrow> (m, Node l' k v r))"

text \<open>
  Modelled from the spec: \<^verbatim>\<open>del tree[key]\<close>, delete-by-key. Search from the root; the first node met with the key is removed
  (a node with two children is replaced by its in-order successor). A key that is not met
  raises KeyError.
\<close>

fun delete_aux :: "('k::linorder, 'i) bst \<Rightarrow> 'k \<Rightarrow> py_error + ('k, 'i) bst" where
  "delete_aux Leaf key = Inl KeyError"
| "delete_aux (Node l k v r) key =
     (if key < k then
        (case delete_aux l key of Inl e \<Rightarrow> Inl e | Inr l' \<Rightarrow> Inr (Node l' k v r))
      else if k < key then
        (case delete_aux r key of Inl e \<Rightarrow> Inl e | Inr r' \<Rightarrow> Inr (Node l k v r'))
      else
        (case (l, r) of
           (Leaf, _) \<Rightarrow> Inr r
         | (_, Leaf) \<Rightarrow> Inr l
         | (_, Node rl rk rv rr) \<Rightarrow>
             (case get_minimal rl rk rv rr of ((sk, sv), r') \<Rightarrow> Inr (Node l sk sv r'))))"

section \<open>BetterBST (betterbst.py)\<close>

text \<open>\<^verbatim>\<open>__sort_elements\<close>: delegates to mergesort.\<close>

definition sort_elements :: "('k::linorder \<times> 'i) list \<Rightarrow> ('k \<times> 'i) list" where
  "sort_elements elements = mergesort elements"

text \<open>
  \<^verbatim>\<open>build_tree_aux(sorted_elements, start, end)\<close>. The tree \<open>self\<close> is threaded
  through the calls; \<open>start\<close> and \<open>end\<close> are Python integers; the read
  \<^verbatim>\<open>sorted_elements[mid]\<close> is Python indexing.
\<close>

function build_tree_aux ::
  "('k::linorder, 'i) bst \<Rightarrow> ('k \<times> 'i) list \<Rightarrow> int \<Rightarrow> int \<Rightarrow> py_error + ('k, 'i) bst" where
  "build_tree_aux self sorted_elements start endi =
     (if start > endi then Inr self
      else
        (let mid = (start + endi) div 2 in
         case py_get sorted_elements mid of
           Inl e \<Rightarrow> Inl e
         | Inr (key, val) \<Rightarrow>
             (case build_tree_aux (insert_aux self key val) sorted_elements start (mid - 1) of
                Inl e \<Rightarrow> Inl e
              | Inr self' \<Rightarrow> build_tree_aux self' sorted_elements (mid + 1) endi)))"
  by pat_completeness auto
termination
  by (relation "measure (\<lambda>(self, xs, s, e). nat (e - s + 1))") auto

declare build_tree_aux.simps [simp del]

text \<open>\<^verbatim>\<open>__build_balanced_tree(elements)\<close>, run on the empty tree of \<^verbatim>\<open>super().__init__()\<close>.\<close>

definition build_balanced_tree :: "('k::linorder \<times> 'i) list \<Rightarrow> py_error + ('k, 'i) bst" where
  "build_balanced_tree elements = build_tree_aux Leaf elements 0 (int (length elements) - 1)"

text \<open>\<^verbatim>\<open>BetterBST(elements)\<close>: sort, then build.\<close>

definition BetterBST :: "('k::linorder \<times> 'i) list \<Rightarrow> py_error + ('k, 'i) bst" where
  "BetterBST elements = build_balanced_tree (sort_elements elements)"

section \<open>Max-heap (data_structures/heap.py)\<close>

text \<open>
  Modelled from the spec: the class \<^verbatim>\<open>MaxHeap\<close> of data_structures/heap.py is missing
  from the sources. Spec 2 and 3: an array-backed binary max-heap over key/item pairs, a
  dense sequence in which a parent dominates both children by key, with bulk construction,
  extract-max and insert. The array is indexed from 0: the children of \<open>k\<close> are
  \<open>2k+1\<close> and \<open>2k+2\<close>. Spec 7: extracting from an empty heap fails loudly.
\<close>

text \<open>Modelled from the spec: the exchange of two positions of the heap array.\<close>

definition swap :: "'a list \<Rightarrow> nat \<Rightarrow> nat \<Rightarrow> 'a list" where
  "swap xs i j = xs[i := xs ! j, j := xs ! i]"

text \<open>Modelled from the spec: the index of the parent of position \<open>k\<close>.\<close>

definition parent :: "nat \<Rightarrow> nat" where
  "parent k = (k - 1) div 2"

text \<open>
  Modelled from the spec: the element at \<open>k\<close> moves up while its key is greater than
  its parent's (the insert of spec 2, in O(log n)).
\<close>

function rise :: "('k::linorder \<times> 'i) list \<Rightarrow> nat \<Rightarrow> ('k \<times> 'i) list" where
  "rise xs k =
     (if 0 < k \<and> k < length xs \<and> fst (xs ! parent k) < fst (xs ! k)
      then rise (swap xs k (parent k)) (parent k)
      else xs)"
  by pat_completeness auto
termination
  by (relation "measure (\<lambda>(xs, k). k)") (auto simp: parent_def)

declare rise.simps [simp del]

text \<open>
  Modelled from the spec: the element at \<open>k\<close> moves down, exchanged with its greater
  child, while its key is less than that child's (the extract-max and the bulk construction
  of spec 2).
\<close>

function sink :: "('k::linorder \<times> 'i) list \<Rightarrow> nat \<Rightarrow> ('k \<times> 'i) list" where
  "sink xs k =
     (if 2 * k + 1 < length xs then
        (let c = (if 2 * k + 2 < length xs \<and> fst (xs ! (2 * k + 1)) < fst (xs ! (2 * k + 2))
                  then 2 * k + 2 else 2 * k + 1)
         in if fst (xs ! k) < fst (xs ! c) then sink (swap xs k c) c else xs)
      else xs)"
  by pat_completeness auto
termination
  by (relation "measure (\<lambda>(xs, k). length xs - k)") (auto simp: swap_def)

declare sink.simps [simp del]

text \<open>Modelled from the spec: \<^verbatim>\<open>heap.add(element)\<close>, append, then rise.\<close>

definition heap_add :: "('k::linorder \<times> 'i) list \<Rightarrow> 'k \<times> 'i \<Rightarrow> ('k \<times> 'i) list" where
  "heap_add xs x = rise (xs @ [x]) (length xs)"

text \<open>
  Modelled from the spec: \<^verbatim>\<open>heap.get_max()\<close>. The root is returned and removed; the last element takes its
  place and sinks.
\<close>

definition get_max :: "('k::linorder \<times> 'i) list \<Rightarrow> py_error + (('k \<times> 'i) \<times> ('k \<times> 'i) list)" where
  "get_max xs =
     (case xs of
        [] \<Rightarrow> Inl IndexError
      | x # _ \<Rightarrow> Inr (x, sink (butlast (xs[0 := last xs])) 0))"

text \<open>
  Modelled from the spec: the loop of the bulk construction, which sinks the positions
  \<open>k - 1\<close> down to \<open>0\<close>.
\<close>

fun heapify_aux :: "('k::linorder \<times> 'i) list \<Rightarrow> nat \<Rightarrow> ('k \<times> 'i) list" where
  "heapify_aux xs 0 = xs"
| "heapify_aux xs (Suc k) = heapify_aux (sink xs k) k"

text \<open>
  Modelled from the spec: \<^verbatim>\<open>MaxHeap.heapify(elements)\<close>, sinking every inner position,
  last to first (spec 2 and 8).
\<close>

definition heapify :: "('k::linorder \<times> 'i) list \<Rightarrow> ('k \<times> 'i) list" where
  "heapify xs = heapify_aux xs (length xs div 2)"

section \<open>Hollows (hollows.py)\<close>

subsection \<open>SpookyHollow\<close>

text \<open>
  The loop of \<^verbatim>\<open>SpookyHollow.restructure_hollow\<close>:
  \<^verbatim>\<open>ratio = -treasure.value / treasure.weight\<close>, which raises ZeroDivisionError on a
  zero weight. The quotient is a Python float in the source; it is an exact rational here,
  which orders any two ratios the way the floats do whenever the floats differ.
\<close>

fun spooky_tuples :: "treasure list \<Rightarrow> py_error + (rat \<times> treasure) list" where
  "spooky_tuples [] = Inr []"
| "spooky_tuples (t # ts) =
     (if weight t = 0 then Inl ZeroDivisionError
      else (case spooky_tuples ts of
              Inl e \<Rightarrow> Inl e
            | Inr tuples \<Rightarrow> Inr ((of_int (- tvalue t) / of_int (weight t), t) # tuples)))"

definition spooky_restructure_hollow :: "treasure list \<Rightarrow> py_error + (rat, treasure) bst" where
  "spooky_restructure_hollow treasures =
     (case spooky_tuples treasures of
        Inl e \<Rightarrow> Inl e
      | Inr treasure_tuples \<Rightarrow> BetterBST treasure_tuples)"

text \<open>
  The \<^verbatim>\<open>for node in self.treasures\<close> loop of \<^verbatim>\<open>SpookyHollow.get_optimal_treasure\<close>,
  over the nodes in in-order: the first node whose treasure fits.
\<close>

fun first_fitting :: "('k \<times> treasure) list \<Rightarrow> int \<Rightarrow> ('k \<times> treasure) option" where
  "first_fitting [] backpack_capacity = None"
| "first_fitting ((key, item) # nodes) backpack_capacity =
     (if weight item \<le> backpack_capacity then Some (key, item)
      else first_fitting nodes backpack_capacity)"

text \<open>
  \<^verbatim>\<open>SpookyHollow.get_optimal_treasure\<close>: the found node is deleted by its key,
  \<^verbatim>\<open>del self.treasures[optimal_treasure_node.key]\<close>. A treasure object is truthy.
\<close>

definition spooky_get_optimal_treasure ::
  "(rat, treasure) bst \<Rightarrow> int \<Rightarrow> py_error + (treasure option \<times> (rat, treasure) bst)" where
  "spooky_get_optimal_treasure self backpack_capacity =
     (case first_fitting (inorder self) backpack_capacity of
        None \<Rightarrow> Inr (None, self)
      | Some (key, optimal_treasure) \<Rightarrow>
          (case delete_aux self key of
             Inl e \<Rightarrow> Inl e
           | Inr self' \<Rightarrow> Inr (Some optimal_treasure, self')))"

subsection \<open>MysticalHollow\<close>

text \<open>
  The loop of \<^verbatim>\<open>MysticalHollow.restructure_hollow\<close>:
  \<^verbatim>\<open>ratio = treasure.value / treasure.weight\<close>.
\<close>

fun mystical_tuples :: "treasure list \<Rightarrow> py_error + (rat \<times> treasure) list" where
  "mystical_tuples [] = Inr []"
| "mystical_tuples (t # ts) =
     (if weight t = 0 then Inl ZeroDivisionError
      else (case mystical_tuples ts of
              Inl e \<Rightarrow> Inl e
            | Inr tuples \<Rightarrow> Inr ((of_int (tvalue t) / of_int (weight t), t) # tuples)))"

definition mystical_restructure_hollow :: "treasure list \<Rightarrow> py_error + (rat \<times> treasure) list" where
  "mystical_restructure_hollow treasures =
     (case mystical_tuples treasures of
        Inl e \<Rightarrow> Inl e
      | Inr treasure_tuples \<Rightarrow> Inr (heapify treasure_tuples))"

text \<open>
  The \<^verbatim>\<open>while optimal_treasure is None\<close> loop of
  \<^verbatim>\<open>MysticalHollow.get_optimal_treasure\<close>; \<open>temp_storage\<close> holds the rejected
  entries in extraction order.
\<close>

function mystical_loop ::
  "(rat \<times> treasure) list \<Rightarrow> int \<Rightarrow> (rat \<times> treasure) list
    \<Rightarrow> py_error + (treasure option \<times> (rat \<times> treasure) list \<times> (rat \<times> treasure) list)" where
  "mystical_loop self backpack_capacity temp_storage =
     (if length self = 0 then Inr (None, self, temp_storage)
      else (case get_max self of
              Inl e \<Rightarrow> Inl e
            | Inr ((ratio, t), self') \<Rightarrow>
                if weight t \<le> backpack_capacity then Inr (Some t, self', temp_storage)
                else mystical_loop self' backpack_capacity (temp_storage @ [(ratio, t)])))"
  by pat_completeness auto
termination
proof (relation "measure (\<lambda>(self, cap, temp). length self)")
  show "wf (measure (\<lambda>(self, cap, temp). length self))" by simp
next
  fix self :: "(rat \<times> treasure) list" and backpack_capacity :: int
    and temp_storage :: "(rat \<times> treasure) list" and x2 x y self' ratio t
  assume ne: "length self \<noteq> 0" and g: "get_max self = Inr x2" and x2: "(x, self') = x2"
  have len: "length (sink ys k) = length ys" for ys :: "(rat \<times> treasure) list" and k
    by (induction ys k rule: sink.induct) (subst sink.simps, simp add: swap_def Let_def)
  from g x2 have "length self' = length self - 1"
    by (auto simp: get_max_def len split: list.splits)
  with ne show "((self', backpack_capacity, temp_storage @ [(ratio, t)]),
                 self, backpack_capacity, temp_storage) \<in> measure (\<lambda>(self, cap, temp). length self)"
    by simp
qed

declare mystical_loop.simps [simp del]

text \<open>
  \<^verbatim>\<open>MysticalHollow.get_optimal_treasure\<close>: after the loop every entry of
  \<open>temp_storage\<close> is added back, in order.
\<close>

definition mystical_get_optimal_treasure ::
  "(rat \<times> treasure) list \<Rightarrow> int \<Rightarrow> py_error + (treasure option \<times> (rat \<times> treasure) list)" where
  "mystical_get_optimal_treasure self backpack_capacity =
     (case mystical_loop self backpack_capacity [] of
        Inl e \<Rightarrow> Inl e
      | Inr (optimal_treasure, self', temp_storage) \<Rightarrow>
          Inr (optimal_treasure, fold (\<lambda>e h. heap_add h e) temp_storage self'))"

subsection \<open>The two kinds of hollow\<close>

text \<open>
  A hollow after \<^verbatim>\<open>restructure_hollow\<close>: its \<open>treasures\<close> attribute is a tree
  (SpookyHollow) or a heap (MysticalHollow).
\<close>

datatype hollow =
  SpookyHollow "(rat, treasure) bst"
| MysticalHollow "(rat \<times> treasure) list"

text \<open>\<^verbatim>\<open>Hollow.__init__\<close> on the treasures that \<^verbatim>\<open>gen_treasures()\<close> produced.\<close>

definition new_SpookyHollow :: "treasure list \<Rightarrow> py_error + hollow" where
  "new_SpookyHollow treasures = map_sum id SpookyHollow (spooky_restructure_hollow treasures)"

definition new_MysticalHollow :: "treasure list \<Rightarrow> py_error + hollow" where
  "new_MysticalHollow treasures = map_sum id MysticalHollow (mystical_restructure_hollow treasures)"

text \<open>\<^verbatim>\<open>Hollow.__len__\<close>.\<close>

fun hollow_len :: "hollow \<Rightarrow> nat" where
  "hollow_len (SpookyHollow t) = bst_len t"
| "hollow_len (MysticalHollow h) = length h"

text \<open>The dynamic dispatch of \<^verbatim>\<open>hollow.get_optimal_treasure(backpack_capacity)\<close>.\<close>

fun get_optimal_treasure :: "hollow \<Rightarrow> int \<Rightarrow> py_error + (treasure option \<times> hollow)" where
  "get_optimal_treasure (SpookyHollow t) backpack_capacity =
     map_sum id (\<lambda>(res, t'). (res, SpookyHollow t')) (spooky_get_optimal_treasure t backpack_capacity)"
| "get_optimal_treasure (MysticalHollow h) backpack_capacity =
     map_sum id (\<lambda>(res, h'). (res, MysticalHollow h')) (mystical_get_optimal_treasure h backpack_capacity)"

text \<open>The entries and the treasures a hollow holds, as multisets.\<close>

fun hollow_entries :: "hollow \<Rightarrow> (rat \<times> treasure) multiset" where
  "hollow_entries (SpookyHollow t) = mset (inorder t)"
| "hollow_entries (MysticalHollow h) = mset h"

definition hollow_treasures :: "hollow \<Rightarrow> treasure multiset" where
  "hollow_treasures h = image_mset snd (hollow_entries h)"

text \<open>
  The invariants of the two collections: the in-order key sequence of the tree is sorted;
  every parent of the heap array dominates its children.
\<close>

definition bst_inv :: "('k::linorder, 'i) bst \<Rightarrow> bool" where
  "bst_inv t = sorted (map fst (inorder t))"

definition heap_inv :: "('k::linorder \<times> 'i) list \<Rightarrow> bool" where
  "heap_inv xs = list_all (\<lambda>k. fst (xs ! k) \<le> fst (xs ! parent k)) [1..<length xs]"

fun hollow_inv :: "hollow \<Rightarrow> bool" where
  "hollow_inv (SpookyHollow t) = bst_inv t"
| "hollow_inv (MysticalHollow h) = heap_inv h"

section \<open>Vocabulary of the properties\<close>

text \<open>The value/weight ratio of a treasure.\<close>

definition ratio :: "treasure \<Rightarrow> rat" where
  "ratio t = of_int (tvalue t) / of_int (weight t)"

text \<open>The elements of a list at the indices \<open>start, \<dots>, endi\<close>.\<close>

definition slice :: "'a list \<Rightarrow> int \<Rightarrow> int \<Rightarrow> 'a list" where
  "slice xs s e = map (\<lambda>i. xs ! i) [nat s..<nat (e + 1)]"

text \<open>The heap property restricted to the parents at index \<open>m\<close> and above.\<close>

definition heap_from :: "('k::linorder \<times> 'i) list \<Rightarrow> nat \<Rightarrow> bool" where
  "heap_from xs m =
     (\<forall>j < length xs. 0 < j \<and> m \<le> parent j \<longrightarrow> fst (xs ! j) \<le> fst (xs ! parent j))"

section \<open>The maze (maze.py)\<close>

subsection \<open>Positions, tiles, cells\<close>

record Position =
  row :: int
  col :: int

text \<open>
  The enum \<^verbatim>\<open>Tiles\<close> of config.py is missing from the sources. The values of its
  members are a parameter of the model, one character each (a maze file is read character
  by character); \<open>OTHER\<close> holds the values of the members that maze.py does not name.
\<close>

record Tiles =
  START_POSITION :: char
  EXIT :: char
  WALL :: char
  SPOOKY_HOLLOW :: char
  MYSTICAL_HOLLOW :: char
  OTHER :: "char list"

text \<open>
  \<^verbatim>\<open>tile: str | Hollow\<close>. A hollow is an object shared by reference: the tile holds
  its address, and the hollows themselves live in a store.
\<close>

datatype tile = Tile_str char | Tile_hollow nat

type_synonym store = "nat \<Rightarrow> hollow"

record MazeCell =
  tile :: tile
  position :: Position
  visited :: bool

record Maze =
  start_position :: Position
  end_positions :: "Position list"
  rows :: int
  cols :: int
  grid :: "MazeCell list list"

text \<open>
  The place a Python index denotes in a list of length \<open>n\<close>, and the assignment
  \<^verbatim>\<open>grid[r][c] = cell\<close> and the read \<^verbatim>\<open>grid[r][c]\<close> built on it.
\<close>

definition py_index :: "nat \<Rightarrow> int \<Rightarrow> py_error + nat" where
  "py_index n i =
     (if 0 \<le> i \<and> i < int n then Inr (nat i)
      else if i < 0 \<and> - int n \<le> i then Inr (nat (int n + i))
      else Inl IndexError)"

definition grid_index :: "MazeCell list list \<Rightarrow> Position \<Rightarrow> py_error + (nat \<times> nat)" where
  "grid_index g p =
     (case py_index (length g) (row p) of
        Inl e \<Rightarrow> Inl e
      | Inr i \<Rightarrow> (case py_index (length (g ! i)) (col p) of
                    Inl e \<Rightarrow> Inl e
                  | Inr j \<Rightarrow> Inr (i, j)))"

definition grid_get :: "MazeCell list list \<Rightarrow> Position \<Rightarrow> py_error + MazeCell" where
  "grid_get g p = (case grid_index g p of Inl e \<Rightarrow> Inl e | Inr (i, j) \<Rightarrow> Inr (g ! i ! j))"

definition grid_modify ::
  "MazeCell list list \<Rightarrow> Position \<Rightarrow> (MazeCell \<Rightarrow> MazeCell) \<Rightarrow> py_error + MazeCell list list" where
  "grid_modify g p f =
     (case grid_index g p of
        Inl e \<Rightarrow> Inl e
      | Inr (i, j) \<Rightarrow> Inr (g[i := (g ! i)[j := f (g ! i ! j)]]))"

subsection \<open>Construction\<close>

text \<open>The loops of \<^verbatim>\<open>_create_grid\<close> that assign a tile at each listed position.\<close>

fun set_tiles ::
  "MazeCell list list \<Rightarrow> (tile \<times> Position) list \<Rightarrow> py_error + MazeCell list list" where
  "set_tiles g [] = Inr g"
| "set_tiles g ((t, p) # ps) =
     (case grid_modify g p (\<lambda>c. c\<lparr>tile := t\<rparr>) of
        Inl e \<Rightarrow> Inl e
      | Inr g' \<Rightarrow> set_tiles g' ps)"

text \<open>
  \<^verbatim>\<open>_create_grid(walls, hollows, end_positions)\<close>: a grid of empty cells, the start
  cell replaced, then the walls, the hollows and the exits written in this order.
  \<^verbatim>\<open>range(n)\<close> of a negative \<open>n\<close> is empty.
\<close>

definition create_grid ::
  "Tiles \<Rightarrow> Position \<Rightarrow> int \<Rightarrow> int \<Rightarrow> Position list \<Rightarrow> (nat \<times> Position) list \<Rightarrow> Position list
    \<Rightarrow> py_error + MazeCell list list" where
  "create_grid T start nrows ncols walls hollows ends =
     (let g0 = map (\<lambda>i. map (\<lambda>j. \<lparr>tile = Tile_str (CHR '' ''),
                                     position = \<lparr>row = int i, col = int j\<rparr>,
                                     visited = False\<rparr>) [0..<nat ncols]) [0..<nat nrows]
      in case grid_index g0 start of
           Inl e \<Rightarrow> Inl e
         | Inr (i, j) \<Rightarrow>
             (let g1 = g0[i := (g0 ! i)[j := \<lparr>tile = Tile_str (START_POSITION T),
                                              position = start, visited = False\<rparr>]]
              in case set_tiles g1 (map (\<lambda>p. (Tile_str (WALL T), p)) walls) of
                   Inl e \<Rightarrow> Inl e
                 | Inr g2 \<Rightarrow>
                     (case set_tiles g2 (map (\<lambda>(h, p). (Tile_hollow h, p)) hollows) of
                        Inl e \<Rightarrow> Inl e
                      | Inr g3 \<Rightarrow> set_tiles g3 (map (\<lambda>p. (Tile_str (EXIT T), p)) ends))))"

text \<open>\<^verbatim>\<open>Maze.__init__\<close>.\<close>

definition new_Maze ::
  "Tiles \<Rightarrow> Position \<Rightarrow> Position list \<Rightarrow> Position list \<Rightarrow> (nat \<times> Position) list \<Rightarrow> int \<Rightarrow> int
    \<Rightarrow> py_error + Maze" where
  "new_Maze T start ends walls hollows nrows ncols =
     (case create_grid T start nrows ncols walls hollows ends of
        Inl e \<Rightarrow> Inl e
      | Inr g \<Rightarrow> Inr \<lparr>start_position = start, end_positions = ends,
                      rows = nrows, cols = ncols, grid = g\<rparr>)"

subsection \<open>Moves\<close>

text \<open>
  \<^verbatim>\<open>is_valid_position\<close>: the conjunction short-circuits, so the grid is read only for
  a position within the bounds \<open>rows\<close> and \<open>cols\<close>. A hollow tile is not equal to the
  wall string.
\<close>

definition is_valid_position :: "Tiles \<Rightarrow> Maze \<Rightarrow> Position \<Rightarrow> py_error + bool" where
  "is_valid_position T self p =
     (if 0 \<le> row p \<and> row p < rows self \<and> 0 \<le> col p \<and> col p < cols self
      then (case grid_get (grid self) p of
              Inl e \<Rightarrow> Inl e
            | Inr cell \<Rightarrow> Inr (tile cell \<noteq> Tile_str (WALL T)))
      else Inr False)"

text \<open>
  The values of \<^verbatim>\<open>Maze.directions\<close> in the insertion order of the dictionary:
  UP, DOWN, LEFT, RIGHT.
\<close>

definition directions :: "(int \<times> int) list" where
  "directions = [(- 1, 0), (1, 0), (0, - 1), (0, 1)]"

text \<open>The loop of \<^verbatim>\<open>get_available_positions\<close> over the directions.\<close>

fun available_from ::
  "Tiles \<Rightarrow> Maze \<Rightarrow> Position \<Rightarrow> (int \<times> int) list \<Rightarrow> py_error + Position list" where
  "available_from T self cur [] = Inr []"
| "available_from T self cur ((dr, dc) # ds) =
     (let new_position = \<lparr>row = row cur + dr, col = col cur + dc\<rparr> in
      case is_valid_position T self new_position of
        Inl e \<Rightarrow> Inl e
      | Inr ok \<Rightarrow>
          (case available_from T self cur ds of
             Inl e \<Rightarrow> Inl e
           | Inr rest \<Rightarrow> Inr (if ok then new_position # rest else rest)))"

definition get_available_positions :: "Tiles \<Rightarrow> Maze \<Rightarrow> Position \<Rightarrow> py_error + Position list" where
  "get_available_positions T self current_position =
     available_from T self current_position directions"

subsection \<open>Path search\<close>

text \<open>
  The outcome of a call of \<^verbatim>\<open>find_path_aux\<close>: the call ran out of the recursion
  budget given to the model, raised, or returned. A return carries the returned value
  (the path list or None), the maze with its visited flags, the shared \<open>path\<close> list as
  the call left it, and the log of the positions whose cell the search has marked so far
  (an observation of the run; nothing reads it).
\<close>

datatype search =
  OutOfFuel
| Raised py_error
| Returned "Position list option" Maze "Position list" "Position list"

text \<open>
  \<^verbatim>\<open>find_path_aux(current_position, path)\<close>, and the loop
  \<^verbatim>\<open>for next_position in available_positions\<close> of the call at \<open>cur\<close> with the
  backtracking step \<^verbatim>\<open>path.remove(current_position)\<close> that follows it. The first
  argument bounds the depth of the recursion; the recursion limit of the Python
  interpreter is not modelled.
\<close>

fun find_path_aux ::
  "nat \<Rightarrow> Tiles \<Rightarrow> Maze \<Rightarrow> Position \<Rightarrow> Position list \<Rightarrow> Position list \<Rightarrow> search"
and explore ::
  "nat \<Rightarrow> Tiles \<Rightarrow> Maze \<Rightarrow> Position \<Rightarrow> Position list \<Rightarrow> Position list \<Rightarrow> Position list \<Rightarrow> search"
where
  "find_path_aux 0 T self current_position path expanded = OutOfFuel"
| "find_path_aux (Suc n) T self current_position path expanded =
     (if current_position \<in> set (end_positions self)
      then Returned (Some (path @ [current_position])) self (path @ [current_position]) expanded
      else
        (case grid_index (grid self) current_position of
           Inl e \<Rightarrow> Raised e
         | Inr (i, j) \<Rightarrow>
             if visited (grid self ! i ! j) then Returned None self path expanded
             else
               (let self' = self\<lparr>grid := (grid self)[i := (grid self ! i)
                                     [j := (grid self ! i ! j)\<lparr>visited := True\<rparr>]]\<rparr>
                in case get_available_positions T self' current_position of
                     Inl e \<Rightarrow> Raised e
                   | Inr available_positions \<Rightarrow>
                       explore n T self' current_position available_positions
                         (path @ [current_position]) (expanded @ [current_position]))))"
| "explore n T self current_position [] path expanded =
     (if current_position \<in> set path
      then Returned None self (remove1 current_position path) expanded
      else Raised ValueError)"
| "explore n T self current_position (next_position # rest) path expanded =
     (case find_path_aux n T self next_position path expanded of
        Returned None self' path' expanded' \<Rightarrow> explore n T self' current_position rest path' expanded'
      | other \<Rightarrow> other)"

text \<open>
  \<^verbatim>\<open>find_way_out()\<close>. The recursion budget is one more than the number of cells of
  the grid, which no search exhausts.
\<close>

definition find_way_out :: "Tiles \<Rightarrow> Maze \<Rightarrow> search" where
  "find_way_out T self =
     find_path_aux (Suc (length (concat (grid self)))) T self (start_position self) [] []"

subsection \<open>Collecting treasures along a path\<close>

text \<open>
  The loop of \<^verbatim>\<open>take_treasures(path, backpack_capacity)\<close> over the cells of the
  path. The hollow of a cell is read from the store and its new state written back.
\<close>

fun take_treasures_loop ::
  "store \<Rightarrow> MazeCell list \<Rightarrow> int \<Rightarrow> treasure list \<Rightarrow> py_error + (treasure list \<times> store)" where
  "take_treasures_loop st [] backpack_capacity treasures_taken = Inr (treasures_taken, st)"
| "take_treasures_loop st (cell # path) backpack_capacity treasures_taken =
     (case tile cell of
        Tile_str s \<Rightarrow> take_treasures_loop st path backpack_capacity treasures_taken
      | Tile_hollow r \<Rightarrow>
          (case get_optimal_treasure (st r) backpack_capacity of
             Inl e \<Rightarrow> Inl e
           | Inr (None, h') \<Rightarrow>
               take_treasures_loop (st(r := h')) path backpack_capacity treasures_taken
           | Inr (Some optimal_treasure, h') \<Rightarrow>
               if weight optimal_treasure \<le> backpack_capacity
               then take_treasures_loop (st(r := h')) path
                      (backpack_capacity - weight optimal_treasure)
                      (treasures_taken @ [optimal_treasure])
               else take_treasures_loop (st(r := h')) path backpack_capacity treasures_taken))"

definition take_treasures ::
  "store \<Rightarrow> MazeCell list \<Rightarrow> int \<Rightarrow> py_error + (treasure list option \<times> store)" where
  "take_treasures st path backpack_capacity =
     (case take_treasures_loop st path backpack_capacity [] of
        Inl e \<Rightarrow> Inl e
      | Inr (treasures_taken, st') \<Rightarrow>
          Inr (if treasures_taken = [] then None else Some treasures_taken, st'))"

subsection \<open>Vocabulary of the maze properties\<close>

text \<open>
  The grid has \<open>rows\<close> rows of \<open>cols\<close> cells each, as \<^verbatim>\<open>_create_grid\<close> builds it; a
  position lies within the bounds of the maze.
\<close>

definition grid_shape :: "Maze \<Rightarrow> bool" where
  "grid_shape self =
     (length (grid self) = nat (rows self) \<and>
      list_all (\<lambda>r. length r = nat (cols self)) (grid self))"

definition in_bounds :: "Maze \<Rightarrow> Position \<Rightarrow> bool" where
  "in_bounds self p = (0 \<le> row p \<and> row p < rows self \<and> 0 \<le> col p \<and> col p < cols self)"


text \<open>The number of cells of the grid that are not marked visited.\<close>

definition unvisited_count :: "MazeCell list list \<Rightarrow> nat" where
  "unvisited_count g = length (filter (\<lambda>c. \<not> visited c) (concat g))"

text \<open>
  What a part of a search run does to the maze: from the maze \<open>m\<close> and the log \<open>ex\<close> it
  leads to \<open>m'\<close> and \<open>ex'\<close> when the log has grown by positions \<open>new\<close>, none of them an
  end position, each denoting a cell that was not visited in \<open>m\<close>, no two denoting the
  same cell, and \<open>m'\<close> is \<open>m\<close> with exactly these cells marked visited.
\<close>

definition marked_run :: "Maze \<Rightarrow> Position list \<Rightarrow> Maze \<Rightarrow> Position list \<Rightarrow> bool" where
  "marked_run m ex m' ex' =
     (\<exists>new. ex' = ex @ new \<and>
        m' = m\<lparr>grid := grid m'\<rparr> \<and>
        map length (grid m') = map length (grid m) \<and>
        (\<forall>p \<in> set new. p \<notin> set (end_positions m)) \<and>
        distinct (map (grid_index (grid m)) new) \<and>
        (\<forall>p \<in> set new. \<exists>i j. grid_index (grid m) p = Inr (i, j) \<and> \<not> visited (grid m ! i ! j)) \<and>
        (\<forall>i j. i < length (grid m) \<longrightarrow> j < length (grid m ! i) \<longrightarrow>
           grid m' ! i ! j =
             (if Inr (i, j) \<in> grid_index (grid m) ` set new
              then (grid m ! i ! j)\<lparr>visited := True\<rparr> else grid m ! i ! j)))"

text \<open>Every hollow that a cell of the path refers to satisfies its invariant.\<close>

definition path_hollows_inv :: "store \<Rightarrow> MazeCell list \<Rightarrow> bool" where
  "path_hollows_inv st path =
     list_all (\<lambda>cell. case tile cell of Tile_str s \<Rightarrow> True | Tile_hollow r \<Rightarrow> hollow_inv (st r)) path"

text \<open>
  The path-treasure walk in the words of the spec (4.6): iterate the cells in path order;
  for each hollow-bearing cell take the best fitting treasure under the remaining capacity;
  on success put the treasure on the output and decrease the remaining capacity by its
  weight; on failure skip the cell.
\<close>

fun path_treasure_walk ::
  "store \<Rightarrow> MazeCell list \<Rightarrow> int \<Rightarrow> py_error + (treasure list \<times> store)" where
  "path_treasure_walk st [] remaining = Inr ([], st)"
| "path_treasure_walk st (cell # path) remaining =
     (case tile cell of
        Tile_str s \<Rightarrow> path_treasure_walk st path remaining
      | Tile_hollow r \<Rightarrow>
          (case get_optimal_treasure (st r) remaining of
             Inl e \<Rightarrow> Inl e
           | Inr (None, h') \<Rightarrow> path_treasure_walk (st(r := h')) path remaining
           | Inr (Some t, h') \<Rightarrow>
               (case path_treasure_walk (st(r := h')) path (remaining - weight t) of
                  Inl e \<Rightarrow> Inl e
                | Inr (ts, st') \<Rightarrow> Inr (t # ts, st'))))"

subsection \<open>Loading a maze from a file\<close>

text \<open>
  The file is given by the list of its lines, as \<^verbatim>\<open>f.readlines()\<close> returns them; a
  character of the file is one \<open>char\<close> (code points below 256). \<^verbatim>\<open>line.strip()\<close>
  removes the leading and trailing whitespace of Python: tab, line feed, vertical tab, form
  feed, carriage return, the separators 28 to 31, space, and the code points 133 and 160.
\<close>

definition is_space :: "char \<Rightarrow> bool" where
  "is_space c = ((of_char c :: nat) \<in> {9, 10, 11, 12, 13, 28, 29, 30, 31, 32, 133, 160})"

definition strip :: "string \<Rightarrow> string" where
  "strip s = rev (dropWhile is_space (rev (dropWhile is_space s)))"

text \<open>
  \<^verbatim>\<open>validate_maze_file\<close>. \<open>tile_count\<close> counts the characters of the stripped lines;
  a key is in the dictionary when the character occurs. The literals \<^verbatim>\<open>'P'\<close> and
  \<^verbatim>\<open>'E'\<close> are the source's.
\<close>

definition validate_maze_file :: "Tiles \<Rightarrow> string list \<Rightarrow> py_error + unit" where
  "validate_maze_file T lines =
     (case lines of
        [] \<Rightarrow> Inl IndexError
      | first_line # _ \<Rightarrow>
          (let ncols = length (strip first_line); tiles = concat (map strip lines) in
           if list_ex (\<lambda>line. length (strip line) \<noteq> ncols) lines then Inl ValueError
           else if CHR ''P'' \<notin> set tiles \<or> CHR ''E'' \<notin> set tiles then Inl ValueError
           else if 1 < count_list tiles (CHR ''P'') then Inl ValueError
           else if \<not> (SPOOKY_HOLLOW T \<in> set tiles \<or> MYSTICAL_HOLLOW T \<in> set tiles)
             then Inl ValueError
           else if list_ex (\<lambda>t. t \<notin> set ([START_POSITION T, EXIT T, WALL T, SPOOKY_HOLLOW T,
                                            MYSTICAL_HOLLOW T] @ OTHER T)) tiles
             then Inl ValueError
           else Inr ()))"

text \<open>
  The variables of \<^verbatim>\<open>load_maze_from_file\<close> while the file is scanned, with the store of
  the hollows created so far and their number. The hollow with address 0 is the one
  MysticalHollow made before the scan.
\<close>

record loading =
  l_start :: "Position option"
  l_ends :: "Position list"
  l_walls :: "Position list"
  l_hollows :: "(nat \<times> Position) list"
  l_store :: store
  l_count :: nat

text \<open>
  The inner loop \<^verbatim>\<open>for j, tile in enumerate(line.strip())\<close> from column \<open>j\<close> on.
  \<open>gen k\<close> is the list that the call number \<open>k\<close> of \<^verbatim>\<open>gen_treasures()\<close> returns
  (treasure.py is not in the sources); a new SpookyHollow takes the next address.
\<close>

fun scan_tiles ::
  "Tiles \<Rightarrow> (nat \<Rightarrow> treasure list) \<Rightarrow> nat \<Rightarrow> nat \<Rightarrow> string \<Rightarrow> loading \<Rightarrow> py_error + loading" where
  "scan_tiles T gen i j [] s = Inr s"
| "scan_tiles T gen i j (t # ts) s =
     (let p = \<lparr>row = int i, col = int j\<rparr> in
      if t = START_POSITION T then scan_tiles T gen i (Suc j) ts (s\<lparr>l_start := Some p\<rparr>)
      else if t = EXIT T then scan_tiles T gen i (Suc j) ts (s\<lparr>l_ends := l_ends s @ [p]\<rparr>)
      else if t = WALL T then scan_tiles T gen i (Suc j) ts (s\<lparr>l_walls := l_walls s @ [p]\<rparr>)
      else if t = SPOOKY_HOLLOW T then
        (case new_SpookyHollow (gen (l_count s)) of
           Inl e \<Rightarrow> Inl e
         | Inr h \<Rightarrow>
             scan_tiles T gen i (Suc j) ts
               (s\<lparr>l_hollows := l_hollows s @ [(l_count s, p)],
                  l_store := (l_store s)(l_count s := h),
                  l_count := Suc (l_count s)\<rparr>))
      else if t = MYSTICAL_HOLLOW T then
        scan_tiles T gen i (Suc j) ts (s\<lparr>l_hollows := l_hollows s @ [(0, p)]\<rparr>)
      else scan_tiles T gen i (Suc j) ts s)"

text \<open>The outer loop \<^verbatim>\<open>for i, line in enumerate(lines)\<close> from line \<open>i\<close> on.\<close>

fun scan_lines ::
  "Tiles \<Rightarrow> (nat \<Rightarrow> treasure list) \<Rightarrow> nat \<Rightarrow> string list \<Rightarrow> loading \<Rightarrow> py_error + loading" where
  "scan_lines T gen i [] s = Inr s"
| "scan_lines T gen i (line # lines) s =
     (case scan_tiles T gen i 0 (strip line) s of
        Inl e \<Rightarrow> Inl e
      | Inr s' \<Rightarrow> scan_lines T gen (Suc i) lines s')"

text \<open>
  \<^verbatim>\<open>load_maze_from_file\<close>: validate, make the one MysticalHollow, scan, assert that a
  start position was found, construct the maze. The result is the maze and the store of its
  hollows.
\<close>

definition load_maze_from_file ::
  "Tiles \<Rightarrow> (nat \<Rightarrow> treasure list) \<Rightarrow> string list \<Rightarrow> py_error + (Maze \<times> store)" where
  "load_maze_from_file T gen lines =
     (case validate_maze_file T lines of
        Inl e \<Rightarrow> Inl e
      | Inr u \<Rightarrow>
          (case new_MysticalHollow (gen 0) of
             Inl e \<Rightarrow> Inl e
           | Inr mystical_hollow \<Rightarrow>
               (case py_get lines 0 of
                  Inl e \<Rightarrow> Inl e
                | Inr first_line \<Rightarrow>
                    (case scan_lines T gen 0 lines
                            \<lparr>l_start = None, l_ends = [], l_walls = [], l_hollows = [],
                             l_store = (\<lambda>r. mystical_hollow), l_count = 1\<rparr> of
                       Inl e \<Rightarrow> Inl e
                     | Inr s \<Rightarrow>
                         (case l_start s of
                            None \<Rightarrow> Inl AssertionError
                          | Some start \<Rightarrow>
                              (case new_Maze T start (l_ends s) (l_walls s) (l_hollows s)
                                      (int (length lines)) (int (length (strip first_line))) of
                                 Inl e \<Rightarrow> Inl e
                               | Inr maze \<Rightarrow> Inr (maze, l_store s)))))))"

text \<open>The number of cells of a grid whose tile is the hollow with address \<open>r\<close>.\<close>

definition hollow_count :: "nat \<Rightarrow> MazeCell list list \<Rightarrow> nat" where
  "hollow_count r g = length (filter (\<lambda>c. tile c = Tile_hollow r) (concat g))"

text \<open>
  What holds of the variables of the loader while it scans: the hollow at address 0 is the
  one MysticalHollow \<open>mh\<close>; every address it has recorded is below the number of hollows
  made; every address from 1 on below that number holds a SpookyHollow, and is recorded
  at most once.
\<close>

definition loading_inv :: "hollow \<Rightarrow> loading \<Rightarrow> bool" where
  "loading_inv mh s =
     (1 \<le> l_count s \<and> l_store s 0 = mh \<and>
      (\<forall>h \<in> fst ` set (l_hollows s). h < l_count s) \<and>
      (\<forall>h. 1 \<le> h \<and> h < l_count s \<longrightarrow> (\<exists>t. l_store s h = SpookyHollow t)) \<and>
      (\<forall>h. 1 \<le> h \<longrightarrow> count_list (map fst (l_hollows s)) h \<le> 1))"

section \<open>The sorter, the tree and the balanced build\<close>

lemma mset_merge: "mset (merge xs ys) = mset xs + mset ys"
  by (induction xs ys rule: merge.induct) auto

lemma set_merge: "set (merge xs ys) = set xs \<union> set ys"
  by (induction xs ys rule: merge.induct) auto

lemma sorted_merge:
  "sorted (map fst xs) \<Longrightarrow> sorted (map fst ys) \<Longrightarrow> sorted (map fst (merge xs ys))"
  by (induction xs ys rule: merge.induct) (auto simp: set_merge)

lemma mset_mergesort: "mset (mergesort xs) = mset xs"
proof (induction xs rule: mergesort.induct)
  case (1 xs)
  show ?case
  proof (cases "length xs \<le> 1")
    case True
    then show ?thesis by (subst mergesort.simps) simp
  next
    case False
    have "mset (mergesort xs) =
          mset (take (length xs div 2) xs) + mset (drop (length xs div 2) xs)"
      using False 1 by (subst mergesort.simps) (simp add: mset_merge)
    also have "\<dots> = mset (take (length xs div 2) xs @ drop (length xs div 2) xs)"
      by (simp only: mset_append)
    finally show ?thesis by simp
  qed
qed

lemma sorted_mergesort: "sorted (map fst (mergesort xs))"
proof (induction xs rule: mergesort.induct)
  case (1 xs)
  show ?case
  proof (cases "length xs \<le> 1")
    case True
    then have "xs = [] \<or> (\<exists>x. xs = [x])" by (cases xs) auto
    then show ?thesis by (subst mergesort.simps) auto
  next
    case False
    then show ?thesis using 1 by (subst mergesort.simps) (simp add: sorted_merge)
  qed
qed

lemma bst_len_inorder: "bst_len t = length (inorder t)"
  by (induction t) auto

lemma mset_insert_aux: "mset (inorder (insert_aux t k v)) = add_mset (k, v) (mset (inorder t))"
  by (induction t) auto

lemma set_insert_aux: "set (inorder (insert_aux t k v)) = insert (k, v) (set (inorder t))"
  by (induction t) auto

lemma bst_inv_insert_aux: "bst_inv t \<Longrightarrow> bst_inv (insert_aux t k v)"
  unfolding bst_inv_def
  by (induction t) (auto simp: sorted_append set_insert_aux)

lemma get_minimal_inorder:
  "get_minimal l k v r = (m, t') \<Longrightarrow> inorder (Node l k v r) = m # inorder t'"
  by (induction l k v r arbitrary: m t' rule: get_minimal.induct) (auto split: prod.splits)

lemma delete_aux_inorder:
  "bst_inv t \<Longrightarrow> key \<in> fst ` set (inorder t) \<Longrightarrow>
   \<exists>t' ys v zs. delete_aux t key = Inr t' \<and> inorder t = ys @ (key, v) # zs \<and> inorder t' = ys @ zs"
proof (induction t)
  case Leaf
  then show ?case by simp
next
  case (Node l k v r)
  from Node.prems(1) have sl: "bst_inv l" and sr: "bst_inv r"
    and lk: "\<forall>x \<in> set (inorder l). fst x \<le> k" and rk: "\<forall>x \<in> set (inorder r). k \<le> fst x"
    by (auto simp: bst_inv_def sorted_append)
  show ?case
  proof (cases "key < k")
    case True
    with Node.prems(2) rk have "key \<in> fst ` set (inorder l)" by fastforce
    from Node.IH(1)[OF sl this] obtain l' ys w zs where
      "delete_aux l key = Inr l'" "inorder l = ys @ (key, w) # zs" "inorder l' = ys @ zs" by blast
    with True show ?thesis by (intro exI[of _ "Node l' k v r"] exI[of _ ys] exI[of _ w] exI[of _ "zs @ (k, v) # inorder r"]) simp
  next
    case False
    show ?thesis
    proof (cases "k < key")
      case True
      with Node.prems(2) lk have "key \<in> fst ` set (inorder r)" by fastforce
      from Node.IH(2)[OF sr this] obtain r' ys w zs where
        "delete_aux r key = Inr r'" "inorder r = ys @ (key, w) # zs" "inorder r' = ys @ zs" by blast
      with True False show ?thesis
        by (intro exI[of _ "Node l k v r'"] exI[of _ "inorder l @ (k, v) # ys"] exI[of _ w] exI[of _ zs]) simp
    next
      case F2: False
      with False have eq: "key = k" by simp
      show ?thesis
      proof (cases l)
        case Leaf
        with eq show ?thesis by (intro exI[of _ r] exI[of _ "[]"] exI[of _ v] exI[of _ "inorder r"]) simp
      next
        case NL: (Node ll lk lv lr)
        show ?thesis
        proof (cases r)
          case Leaf
          with eq NL show ?thesis
            by (intro exI[of _ l] exI[of _ "inorder l"] exI[of _ v] exI[of _ "[]"]) simp
        next
          case NR: (Node rl rk rv rr)
          obtain sk sv r' where gm: "get_minimal rl rk rv rr = ((sk, sv), r')"
            by (metis prod.exhaust)
          from get_minimal_inorder[OF gm] NR have "inorder r = (sk, sv) # inorder r'" by simp
          with eq NL NR gm show ?thesis
            by (intro exI[of _ "Node l sk sv r'"] exI[of _ "inorder l"] exI[of _ v] exI[of _ "inorder r"]) simp
        qed
      qed
    qed
  qed
qed

lemma slice_empty: "e < s \<Longrightarrow> 0 \<le> s \<Longrightarrow> slice xs s e = []"
  by (simp add: slice_def)

lemma slice_split:
  assumes "0 \<le> s" "s \<le> m" "m \<le> e"
  shows "slice xs s e = slice xs s (m - 1) @ xs ! nat m # slice xs (m + 1) e"
proof -
  have "[nat s..<nat (e + 1)] = [nat s..<nat m] @ nat m # [nat (m + 1)..<nat (e + 1)]"
  proof -
    have "[nat s..<nat m + (nat (e + 1) - nat m)] = [nat s..<nat m] @ [nat m..<nat m + (nat (e + 1) - nat m)]"
      using assms by (intro upt_add_eq_append) auto
    moreover have "nat m + (nat (e + 1) - nat m) = nat (e + 1)" using assms by auto
    ultimately have "[nat s..<nat (e + 1)] = [nat s..<nat m] @ [nat m..<nat (e + 1)]" by simp
    also have "[nat m..<nat (e + 1)] = nat m # [Suc (nat m)..<nat (e + 1)]"
      using assms by (intro upt_conv_Cons) auto
    also have "Suc (nat m) = nat (m + 1)" using assms by auto
    finally show ?thesis .
  qed
  moreover have "nat (m - 1 + 1) = nat m" by simp
  ultimately show ?thesis by (simp add: slice_def)
qed

lemma slice_all: "slice xs 0 (int (length xs) - 1) = xs"
  by (simp add: slice_def map_nth)

lemma py_get_in_range: "0 \<le> i \<Longrightarrow> i < int (length xs) \<Longrightarrow> py_get xs i = Inr (xs ! nat i)"
  by (simp add: py_get_def)

lemma build_tree_aux_noop: "endi < start \<Longrightarrow> build_tree_aux self xs start endi = Inr self"
  by (subst build_tree_aux.simps) simp

lemma build_tree_aux_step:
  assumes "0 \<le> start" "start \<le> endi" "endi < int (length xs)"
  shows "build_tree_aux self xs start endi =
     (case build_tree_aux (insert_aux self (fst (xs ! nat ((start + endi) div 2)))
                             (snd (xs ! nat ((start + endi) div 2)))) xs start ((start + endi) div 2 - 1) of
        Inl e \<Rightarrow> Inl e
      | Inr self' \<Rightarrow> build_tree_aux self' xs ((start + endi) div 2 + 1) endi)"
proof -
  have "0 \<le> (start + endi) div 2" "(start + endi) div 2 < int (length xs)"
    using assms by auto
  then have "py_get xs ((start + endi) div 2) = Inr (xs ! nat ((start + endi) div 2))"
    by (rule py_get_in_range)
  then show ?thesis using assms
    by (subst build_tree_aux.simps) (simp add: Let_def split: prod.splits)
qed

lemma build_tree_aux_inorder:
  "0 \<le> start \<Longrightarrow> endi < int (length xs) \<Longrightarrow>
   \<exists>t'. build_tree_aux self xs start endi = Inr t' \<and>
        mset (inorder t') = mset (inorder self) + mset (slice xs start endi) \<and>
        (bst_inv self \<longrightarrow> bst_inv t')"
proof (induction self xs start endi rule: build_tree_aux.induct)
  case (1 self xs start endi)
  show ?case
  proof (cases "endi < start")
    case True
    with "1.prems" show ?thesis by (simp add: build_tree_aux_noop slice_empty)
  next
    case False
    define mid where "mid = (start + endi) div 2"
    have m: "start \<le> mid" "mid \<le> endi" "0 \<le> mid" "mid < int (length xs)"
      using False "1.prems" by (auto simp: mid_def)
    obtain key val where kv: "xs ! nat mid = (key, val)" by (cases "xs ! nat mid")
    have pg: "py_get xs mid = Inr (key, val)" using m kv by (simp add: py_get_in_range)
    have "\<exists>t'. build_tree_aux (insert_aux self key val) xs start (mid - 1) = Inr t' \<and>
        mset (inorder t') = mset (inorder (insert_aux self key val)) + mset (slice xs start (mid - 1)) \<and>
        (bst_inv (insert_aux self key val) \<longrightarrow> bst_inv t')"
      proof (rule "1.IH"(1)[of mid "(key, val)" key val])
      show "\<not> endi < start" by (rule False)
      show "mid = (start + endi) div 2" by (rule mid_def)
      show "py_get xs mid = Inr (key, val)" by (rule pg)
      show "(key, val) = (key, val)" by (rule refl)
      show "0 \<le> start" by (rule "1.prems"(1))
      show "mid - 1 < int (length xs)" using m by linarith
    qed
    then obtain ta where ta: "build_tree_aux (insert_aux self key val) xs start (mid - 1) = Inr ta"
      "mset (inorder ta) = mset (inorder (insert_aux self key val)) + mset (slice xs start (mid - 1))"
      "bst_inv (insert_aux self key val) \<longrightarrow> bst_inv ta" by blast
    have "\<exists>t'. build_tree_aux ta xs (mid + 1) endi = Inr t' \<and>
        mset (inorder t') = mset (inorder ta) + mset (slice xs (mid + 1) endi) \<and>
        (bst_inv ta \<longrightarrow> bst_inv t')"
      proof (rule "1.IH"(2)[of mid "(key, val)" key val ta])
      show "\<not> endi < start" by (rule False)
      show "mid = (start + endi) div 2" by (rule mid_def)
      show "py_get xs mid = Inr (key, val)" by (rule pg)
      show "(key, val) = (key, val)" by (rule refl)
      show "build_tree_aux (insert_aux self key val) xs start (mid - 1) = Inr ta" by (rule ta(1))
      show "0 \<le> mid + 1" using m by linarith
      show "endi < int (length xs)" by (rule "1.prems"(2))
    qed
    then obtain tb where tb: "build_tree_aux ta xs (mid + 1) endi = Inr tb"
      "mset (inorder tb) = mset (inorder ta) + mset (slice xs (mid + 1) endi)"
      "bst_inv ta \<longrightarrow> bst_inv tb" by blast
    have "build_tree_aux self xs start endi =
       (case build_tree_aux (insert_aux self (fst (xs ! nat mid)) (snd (xs ! nat mid))) xs start (mid - 1) of
          Inl e \<Rightarrow> Inl e
        | Inr self' \<Rightarrow> build_tree_aux self' xs (mid + 1) endi)"
      unfolding mid_def using "1.prems"(1) False "1.prems"(2)
      by (intro build_tree_aux_step) simp_all
    then have r1: "build_tree_aux self xs start endi = Inr tb"
      by (simp only: kv fst_conv snd_conv ta(1) tb(1) sum.case)
    have sl: "slice xs start endi = slice xs start (mid - 1) @ (key, val) # slice xs (mid + 1) endi"
      unfolding kv[symmetric] by (rule slice_split[OF "1.prems"(1) m(1) m(2)])
    have r2: "mset (inorder tb) = mset (inorder self) + mset (slice xs start endi)"
      unfolding tb(2) ta(2) sl mset_insert_aux by simp
    have r3: "bst_inv self \<longrightarrow> bst_inv tb"
    proof
      assume "bst_inv self"
      then have "bst_inv (insert_aux self key val)" by (rule bst_inv_insert_aux)
      with ta(3) have "bst_inv ta" by simp
      with tb(3) show "bst_inv tb" by simp
    qed
    from r1 r2 r3 show ?thesis by (intro exI[of _ tb] conjI)
  qed
qed

lemma build_balanced_tree_inorder:
  "\<exists>t'. build_balanced_tree xs = Inr t' \<and> mset (inorder t') = mset xs \<and> bst_inv t'"
proof -
  have "bst_inv (Leaf :: ('a, 'b) bst)" by (simp add: bst_inv_def)
  then show ?thesis
    using build_tree_aux_inorder[of 0 "int (length xs) - 1" xs Leaf]
    by (auto simp: build_balanced_tree_def slice_all)
qed


lemma BetterBST_inorder:
  "\<exists>t'. BetterBST xs = Inr t' \<and> mset (inorder t') = mset xs \<and> bst_inv t'"
  using build_balanced_tree_inorder[of "mergesort xs"]
  by (simp add: BetterBST_def sort_elements_def mset_mergesort)


section \<open>The heap and the two extraction operations\<close>

lemma length_swap [simp]: "length (swap xs i j) = length xs"
  by (simp add: swap_def)

lemma mset_swap_heap: "i < length xs \<Longrightarrow> j < length xs \<Longrightarrow> mset (swap xs i j) = mset xs"
  unfolding swap_def by (rule mset_swap)

lemma length_rise [simp]: "length (rise xs k) = length xs"
  by (induction xs k rule: rise.induct) (subst rise.simps, simp)

lemma mset_rise: "mset (rise xs k) = mset xs"
proof (induction xs k rule: rise.induct)
  case (1 xs k)
  show ?case
  proof (cases "0 < k \<and> k < length xs \<and> fst (xs ! parent k) < fst (xs ! k)")
    case True
    then have "mset (rise xs k) = mset (swap xs k (parent k))"
      using "1.IH" by (subst rise.simps) simp
    also have "\<dots> = mset xs" using True by (intro mset_swap_heap) (auto simp: parent_def)
    finally show ?thesis .
  next
    case False
    then show ?thesis by (subst rise.simps) auto
  qed
qed

lemma length_sink [simp]: "length (sink xs k) = length xs"
  by (induction xs k rule: sink.induct) (subst sink.simps, simp add: Let_def)

lemma mset_sink: "mset (sink xs k) = mset xs"
proof (induction xs k rule: sink.induct)
  case (1 xs k)
  define c where "c = (if 2 * k + 2 < length xs \<and> fst (xs ! (2 * k + 1)) < fst (xs ! (2 * k + 2))
                  then 2 * k + 2 else 2 * k + 1)"
  show ?case
  proof (cases "2 * k + 1 < length xs \<and> fst (xs ! k) < fst (xs ! c)")
    case True
    then have c: "c < length xs" "k < length xs" by (auto simp: c_def)
    have "sink xs k = sink (swap xs k c) c"
      using True by (subst sink.simps) (simp add: c_def Let_def)
    moreover have "mset (sink (swap xs k c) c) = mset (swap xs k c)"
      using True by (intro "1.IH"[of c]) (simp_all add: c_def)
    ultimately show ?thesis using c by (simp add: mset_swap_heap)
  next
    case False
    then have "sink xs k = xs" by (subst sink.simps) (auto simp: c_def Let_def)
    then show ?thesis by simp
  qed
qed

lemma length_heap_add [simp]: "length (heap_add xs x) = Suc (length xs)"
  by (simp add: heap_add_def)

lemma mset_heap_add: "mset (heap_add xs x) = add_mset x (mset xs)"
  by (simp add: heap_add_def mset_rise)

lemma mset_fold_heap_add: "mset (fold (\<lambda>e h. heap_add h e) es h) = mset h + mset es"
  by (induction es arbitrary: h) (simp_all add: mset_heap_add)

lemma length_fold_heap_add: "length (fold (\<lambda>e h. heap_add h e) es h) = length h + length es"
  by (induction es arbitrary: h) simp_all

lemma get_max_empty: "get_max [] = Inl IndexError"
  by (simp add: get_max_def)

lemma mset_root_replaced: "mset (butlast ((x # ys)[0 := last (x # ys)])) = mset ys"
proof (cases ys rule: rev_cases)
  case Nil
  then show ?thesis by simp
next
  case (snoc zs z)
  then show ?thesis by (simp add: butlast_append)
qed

lemma get_max_nonempty:
  "xs \<noteq> [] \<Longrightarrow> \<exists>h'. get_max xs = Inr (hd xs, h') \<and> mset xs = add_mset (hd xs) (mset h') \<and>
                      Suc (length h') = length xs"
proof (cases xs)
  case Nil
  assume "xs \<noteq> []" with Nil show ?thesis by simp
next
  case (Cons x ys)
  let ?h = "sink (butlast (xs[0 := last xs])) 0"
  have "get_max xs = Inr (hd xs, ?h)" using Cons by (simp add: get_max_def)
  moreover have "mset ?h = mset ys" using Cons by (simp only: mset_sink mset_root_replaced)
  moreover have "Suc (length ?h) = length xs" using Cons by simp
  ultimately show ?thesis using Cons by auto
qed

lemma mystical_loop_result:
  "\<exists>res h' rej. mystical_loop h cap temp = Inr (res, h', temp @ rej) \<and>
      (\<forall>e \<in> set rej. cap < weight (snd e)) \<and>
      (case res of
         None \<Rightarrow> h' = [] \<and> mset h = mset rej
       | Some t \<Rightarrow> weight t \<le> cap \<and> (\<exists>r. mset h = add_mset (r, t) (mset rej + mset h')))"
proof (induction h cap temp rule: mystical_loop.induct)
  case (1 h cap temp)
  show ?case
  proof (cases "h = []")
    case True
    then have "mystical_loop h cap temp = Inr (None, h, temp @ [])"
      by (subst mystical_loop.simps) simp
    with True show ?thesis by (intro exI[of _ None] exI[of _ h] exI[of _ "[]"]) simp
  next
    case False
    obtain r t where hd: "hd h = (r, t)" by (cases "hd h")
    from get_max_nonempty[OF False] hd obtain h1 where
      g: "get_max h = Inr ((r, t), h1)" and m: "mset h = add_mset (r, t) (mset h1)" by auto
    show ?thesis
    proof (cases "weight t \<le> cap")
      case True
      have "mystical_loop h cap temp = Inr (Some t, h1, temp @ [])"
        using False g True by (subst mystical_loop.simps) simp
      with True m show ?thesis
        by (intro exI[of _ "Some t"] exI[of _ h1] exI[of _ "[]"]) auto
    next
      case nofit: False
      have eq: "mystical_loop h cap temp = mystical_loop h1 cap (temp @ [(r, t)])"
        using False g nofit by (subst mystical_loop.simps) simp
      have "\<exists>res h' rej. mystical_loop h1 cap (temp @ [(r, t)]) = Inr (res, h', (temp @ [(r, t)]) @ rej) \<and>
          (\<forall>e \<in> set rej. cap < weight (snd e)) \<and>
          (case res of
             None \<Rightarrow> h' = [] \<and> mset h1 = mset rej
           | Some t' \<Rightarrow> weight t' \<le> cap \<and> (\<exists>r'. mset h1 = add_mset (r', t') (mset rej + mset h')))"
      proof (rule "1.IH"[of "((r, t), h1)" "(r, t)" h1 r t])
        show "length h \<noteq> 0" using False by simp
        show "get_max h = Inr ((r, t), h1)" by (rule g)
        show "((r, t), h1) = ((r, t), h1)" by (rule refl)
        show "(r, t) = (r, t)" by (rule refl)
        show "\<not> weight t \<le> cap" by (rule nofit)
      qed
      then obtain res h' rej where
        l: "mystical_loop h1 cap (temp @ [(r, t)]) = Inr (res, h', (temp @ [(r, t)]) @ rej)"
        and rj: "\<forall>e \<in> set rej. cap < weight (snd e)"
        and c: "case res of
             None \<Rightarrow> h' = [] \<and> mset h1 = mset rej
           | Some t' \<Rightarrow> weight t' \<le> cap \<and> (\<exists>r'. mset h1 = add_mset (r', t') (mset rej + mset h'))"
        by blast
      have "mystical_loop h cap temp = Inr (res, h', temp @ ((r, t) # rej))"
        using eq l by simp
      moreover have "\<forall>e \<in> set ((r, t) # rej). cap < weight (snd e)"
        using rj nofit by simp
      moreover have "case res of
             None \<Rightarrow> h' = [] \<and> mset h = mset ((r, t) # rej)
           | Some t' \<Rightarrow> weight t' \<le> cap \<and> (\<exists>r'. mset h = add_mset (r', t') (mset ((r, t) # rej) + mset h'))"
        using c m by (auto split: option.splits)
      ultimately show ?thesis by blast
    qed
  qed
qed

lemma first_fitting_None:
  "first_fitting xs cap = None \<longleftrightarrow> (\<forall>e \<in> set xs. cap < weight (snd e))"
  by (induction xs cap rule: first_fitting.induct) auto

lemma first_fitting_Some:
  "first_fitting xs cap = Some (k, t) \<Longrightarrow>
   \<exists>ys zs. xs = ys @ (k, t) # zs \<and> (\<forall>e \<in> set ys. cap < weight (snd e)) \<and> weight t \<le> cap"
proof (induction xs cap rule: first_fitting.induct)
  case (1 cap)
  then show ?case by simp
next
  case (2 key item nodes cap)
  show ?case
  proof (cases "weight item \<le> cap")
    case True
    with 2 show ?thesis by (intro exI[of _ "[]"] exI[of _ nodes]) simp
  next
    case False
    with 2 obtain ys zs where "nodes = ys @ (k, t) # zs" "\<forall>e \<in> set ys. cap < weight (snd e)"
      "weight t \<le> cap" by auto
    with False show ?thesis
      by (intro exI[of _ "(key, item) # ys"] exI[of _ zs]) simp
  qed
qed

lemma sorted_remove_mid: "sorted (map fst (ys @ e # zs)) \<Longrightarrow> sorted (map fst (ys @ zs))"
  by (auto simp: sorted_append)

lemma spooky_get_optimal_treasure_result:
  assumes "bst_inv t"
  shows "\<exists>res t'. spooky_get_optimal_treasure t cap = Inr (res, t') \<and> bst_inv t' \<and>
     (case res of
        None \<Rightarrow> t' = t \<and> (\<forall>e \<in> set (inorder t). cap < weight (snd e))
      | Some tr \<Rightarrow> weight tr \<le> cap \<and> Suc (bst_len t') = bst_len t \<and>
          (\<exists>k v. (k, tr) \<in> set (inorder t) \<and> mset (inorder t) = add_mset (k, v) (mset (inorder t'))))"
proof (cases "first_fitting (inorder t) cap")
  case None
  then have "spooky_get_optimal_treasure t cap = Inr (None, t)"
    by (simp add: spooky_get_optimal_treasure_def)
  with None assms show ?thesis by (auto simp: first_fitting_None)
next
  case (Some e)
  obtain k tr where e: "e = (k, tr)" by (cases e)
  from first_fitting_Some[OF Some[unfolded e]] obtain ys zs where
    f: "inorder t = ys @ (k, tr) # zs" "weight tr \<le> cap" by blast
  then have "k \<in> fst ` set (inorder t)" by force
  from delete_aux_inorder[OF assms this] obtain t' ys' v zs' where
    d: "delete_aux t k = Inr t'" "inorder t = ys' @ (k, v) # zs'" "inorder t' = ys' @ zs'" by blast
  have r: "spooky_get_optimal_treasure t cap = Inr (Some tr, t')"
    using Some e d(1) by (simp add: spooky_get_optimal_treasure_def)
  have inv: "bst_inv t'" using assms d(2,3) unfolding bst_inv_def
    by (metis sorted_remove_mid)
  have len: "Suc (bst_len t') = bst_len t" using d(2,3) by (simp add: bst_len_inorder)
  have "(k, tr) \<in> set (inorder t)" using f(1) by simp
  moreover have "mset (inorder t) = add_mset (k, v) (mset (inorder t'))" using d(2,3) by simp
  ultimately show ?thesis using r inv len f(2) by auto
qed

lemma heap_inv_iff:
  "heap_inv xs \<longleftrightarrow> (\<forall>j < length xs. 0 < j \<longrightarrow> fst (xs ! j) \<le> fst (xs ! (parent j)))"
  unfolding heap_inv_def list_all_iff by (auto simp: Suc_le_eq)

lemma heap_inv_from: "heap_inv xs \<longleftrightarrow> heap_from xs 0"
  by (simp add: heap_inv_iff heap_from_def)

lemma parent_eq: "0 < (j::nat) \<Longrightarrow> (parent j = k) = (j = 2 * k + 1 \<or> j = 2 * k + 2)"
  unfolding parent_def by presburger

lemma parent_less: "0 < (j::nat) \<Longrightarrow> parent j < j"
  unfolding parent_def by presburger

lemma nth_swap:
  "i < length xs \<Longrightarrow> j < length xs \<Longrightarrow> l < length xs \<Longrightarrow>
   swap xs i j ! l = (if l = j then xs ! i else if l = i then xs ! j else xs ! l)"
  by (simp add: swap_def nth_list_update)


lemma sink_heap_from:
  fixes xs :: "('k::linorder \<times> 'i) list"
  assumes "m \<le> k"
    and "\<forall>j < length xs. 0 < j \<and> m \<le> parent j \<and> parent j \<noteq> k \<longrightarrow>
           fst (xs ! j) \<le> fst (xs ! (parent j))"
    and "0 < k \<and> m \<le> parent k \<longrightarrow>
           (\<forall>j < length xs. 0 < j \<and> parent j = k \<longrightarrow> fst (xs ! j) \<le> fst (xs ! (parent k)))"
  shows "heap_from (sink xs k) m"
  using assms
proof (induction xs k rule: sink.induct)
  case (1 xs k)
  note A = "1.prems"(2) and B = "1.prems"(3)
  define c where "c = (if 2 * k + 2 < length xs \<and> fst (xs ! (2 * k + 1)) < fst (xs ! (2 * k + 2))
                  then 2 * k + 2 else 2 * k + 1)"
  show ?case
  proof (cases "2 * k + 1 < length xs")
    case False
    then have s: "sink xs k = xs" by (subst sink.simps) simp
    have "fst (xs ! j) \<le> fst (xs ! (parent j))"
      if "j < length xs" "0 < j" "m \<le> parent j" for j
    proof -
      have "parent j \<noteq> k" using that(1,2) False parent_eq[of j k] by auto
      with A that show ?thesis by blast
    qed
    then show ?thesis unfolding s heap_from_def by blast
  next
    case True
    have c_cases: "c = 2 * k + 1 \<or> c = 2 * k + 2" by (simp add: c_def)
    have c_len: "c < length xs" using True by (auto simp: c_def)
    have k_len: "k < length xs" using True by simp
    have c_max: "fst (xs ! j) \<le> fst (xs ! c)"
      if "j < length xs" "0 < j" "parent j = k" for j
    proof -
      from that(2,3) have "j = 2 * k + 1 \<or> j = 2 * k + 2" using parent_eq[of j k] by blast
      then show ?thesis using that(1) by (auto simp: c_def)
    qed
    have pc: "parent c = k" "0 < c" "k < c" using c_cases parent_eq[of c k] by auto
    show ?thesis
    proof (cases "fst (xs ! k) < fst (xs ! c)")
      case False
      then have s: "sink xs k = xs" using True by (subst sink.simps) (simp add: c_def Let_def)
      have "fst (xs ! j) \<le> fst (xs ! (parent j))"
        if "j < length xs" "0 < j" "m \<le> parent j" for j
      proof (cases "parent j = k")
        case pk: True
        from c_max[OF that(1,2) pk] False show ?thesis by (simp add: pk)
      next
        case False
        with A that show ?thesis by blast
      qed
      then show ?thesis unfolding s heap_from_def by blast
    next
      case lt: True
      let ?ys = "swap xs k c"
      have s: "sink xs k = sink ?ys c"
        using True lt by (subst sink.simps) (simp add: c_def Let_def)
      have ys_k: "?ys ! k = xs ! c" and ys_c: "?ys ! c = xs ! k"
        using k_len c_len pc(3) by (simp_all add: nth_swap)
      have ys_o: "?ys ! l = xs ! l" if "l < length xs" "l \<noteq> k" "l \<noteq> c" for l
        using that k_len c_len by (simp add: nth_swap)
      have A': "\<forall>j < length ?ys. 0 < j \<and> m \<le> parent j \<and> parent j \<noteq> c \<longrightarrow>
           fst (?ys ! j) \<le> fst (?ys ! (parent j))"
      proof (intro allI impI)
        fix j assume jl: "j < length ?ys" and j: "0 < j \<and> m \<le> parent j \<and> parent j \<noteq> c"
        then have jlen: "j < length xs" by simp
        show "fst (?ys ! j) \<le> fst (?ys ! (parent j))"
        proof (cases "parent j = k")
          case pk: True
          show ?thesis
          proof (cases "j = c")
            case True
            with pk ys_k ys_c lt show ?thesis by simp
          next
            case False
            have "j \<noteq> k" using pk j parent_less[of j] by auto
            with False jlen have "?ys ! j = xs ! j" by (simp add: ys_o)
            with c_max[OF jlen _ pk] j pk ys_k show ?thesis by simp
          qed
        next
          case npk: False
          have pl: "parent j < length xs" using jlen j parent_less[of j] by auto
          have jc: "j \<noteq> c" using npk pc(1) by auto
          have yp: "?ys ! (parent j) = xs ! (parent j)" using pl npk j by (simp add: ys_o)
          show ?thesis
          proof (cases "j = k")
            case True
            with j have "0 < k \<and> m \<le> parent k" by simp
            with B c_len pc have "fst (xs ! c) \<le> fst (xs ! (parent k))" by blast
            with True yp ys_k show ?thesis by simp
          next
            case False
            with jc jlen have "?ys ! j = xs ! j" by (simp add: ys_o)
            moreover from A jlen j npk have "fst (xs ! j) \<le> fst (xs ! (parent j))" by blast
            ultimately show ?thesis using yp by simp
          qed
        qed
      qed
      have B': "0 < c \<and> m \<le> parent c \<longrightarrow>
           (\<forall>j < length ?ys. 0 < j \<and> parent j = c \<longrightarrow> fst (?ys ! j) \<le> fst (?ys ! (parent c)))"
      proof (intro allI impI)
        fix j assume jl: "j < length ?ys" and j: "0 < j \<and> parent j = c"
        then have jlen: "j < length xs" by simp
        have "c < j" using j parent_less[of j] by auto
        with pc(3) jlen have "?ys ! j = xs ! j" by (simp add: ys_o)
        moreover have "fst (xs ! j) \<le> fst (xs ! c)"
          using A jlen j pc(3) "1.prems"(1) by auto
        ultimately show "fst (?ys ! j) \<le> fst (?ys ! (parent c))"
          using pc(1) ys_k by simp
      qed
      have "heap_from (sink ?ys c) m"
      proof (rule "1.IH"[of c])
        show "2 * k + 1 < length xs" by (rule True)
        show "c = (if 2 * k + 2 < length xs \<and> fst (xs ! (2 * k + 1)) < fst (xs ! (2 * k + 2))
                  then 2 * k + 2 else 2 * k + 1)" by (rule c_def)
        show "fst (xs ! k) < fst (xs ! c)" by (rule lt)
        show "m \<le> c" using "1.prems"(1) pc(3) by simp
        show "\<forall>j < length ?ys. 0 < j \<and> m \<le> parent j \<and> parent j \<noteq> c \<longrightarrow>
           fst (?ys ! j) \<le> fst (?ys ! (parent j))" by (rule A')
        show "0 < c \<and> m \<le> parent c \<longrightarrow>
           (\<forall>j < length ?ys. 0 < j \<and> parent j = c \<longrightarrow> fst (?ys ! j) \<le> fst (?ys ! (parent c)))"
          by (rule B')
      qed
      then show ?thesis by (simp only: s)
    qed
  qed
qed

lemma rise_heap_inv:
  fixes xs :: "('k::linorder \<times> 'i) list"
  assumes "k < length xs"
    and "\<forall>j < length xs. 0 < j \<and> j \<noteq> k \<longrightarrow> fst (xs ! j) \<le> fst (xs ! parent j)"
    and "0 < k \<longrightarrow> (\<forall>j < length xs. 0 < j \<and> parent j = k \<longrightarrow> fst (xs ! j) \<le> fst (xs ! parent k))"
  shows "heap_inv (rise xs k)"
  using assms
proof (induction xs k rule: rise.induct)
  case (1 xs k)
  note kl = "1.prems"(1) and A = "1.prems"(2) and B = "1.prems"(3)
  show ?case
  proof (cases "0 < k \<and> fst (xs ! parent k) < fst (xs ! k)")
    case False
    then have s: "rise xs k = xs" by (subst rise.simps) auto
    have "fst (xs ! j) \<le> fst (xs ! parent j)" if "j < length xs" "0 < j" for j
    proof (cases "j = k")
      case True
      with False that show ?thesis by auto
    next
      case False
      with A that show ?thesis by blast
    qed
    then show ?thesis unfolding s heap_inv_iff by blast
  next
    case True
    define p where "p = parent k"
    have pk: "p < k" using True parent_less[of k] by (simp add: p_def)
    have pl: "p < length xs" using pk kl by simp
    have lt: "fst (xs ! p) < fst (xs ! k)" using True by (simp add: p_def)
    let ?ys = "swap xs k p"
    have s: "rise xs k = rise ?ys p"
      using True kl by (subst rise.simps) (simp add: p_def)
    have ys_k: "?ys ! k = xs ! p" and ys_p: "?ys ! p = xs ! k"
      using kl pl pk by (simp_all add: nth_swap)
    have ys_o: "?ys ! l = xs ! l" if "l < length xs" "l \<noteq> k" "l \<noteq> p" for l
      using that kl pl by (simp add: nth_swap)
    have A': "\<forall>j < length ?ys. 0 < j \<and> j \<noteq> p \<longrightarrow> fst (?ys ! j) \<le> fst (?ys ! parent j)"
    proof (intro allI impI)
      fix j assume "j < length ?ys" and j: "0 < j \<and> j \<noteq> p"
      then have jlen: "j < length xs" by simp
      have pjl: "parent j < length xs" using jlen j parent_less[of j] by auto
      show "fst (?ys ! j) \<le> fst (?ys ! parent j)"
      proof (cases "j = k")
        case True
        then show ?thesis using ys_k ys_p lt by (simp add: p_def[symmetric])
      next
        case jk: False
        then have yj: "?ys ! j = xs ! j" using jlen j by (simp add: ys_o)
        show ?thesis
        proof (cases "parent j = k")
          case True
          with B jlen j pk have "fst (xs ! j) \<le> fst (xs ! p)" by (auto simp: p_def)
          with True yj ys_k show ?thesis by simp
        next
          case npk: False
          show ?thesis
          proof (cases "parent j = p")
            case True
            from A jlen j jk have "fst (xs ! j) \<le> fst (xs ! parent j)" by blast
            with True lt yj ys_p show ?thesis by simp
          next
            case False
            with npk pjl have "?ys ! parent j = xs ! parent j" by (simp add: ys_o)
            moreover from A jlen j jk have "fst (xs ! j) \<le> fst (xs ! parent j)" by blast
            ultimately show ?thesis using yj by simp
          qed
        qed
      qed
    qed
    have B': "0 < p \<longrightarrow> (\<forall>j < length ?ys. 0 < j \<and> parent j = p \<longrightarrow> fst (?ys ! j) \<le> fst (?ys ! parent p))"
    proof (intro allI impI)
      fix j assume p0: "0 < p" and "j < length ?ys" and j: "0 < j \<and> parent j = p"
      then have jlen: "j < length xs" by simp
      have ppl: "parent p < p" using p0 by (rule parent_less)
      then have ypp: "?ys ! parent p = xs ! parent p" using pl pk by (simp add: ys_o)
      have ppp: "fst (xs ! p) \<le> fst (xs ! parent p)" using A pl p0 pk by auto
      show "fst (?ys ! j) \<le> fst (?ys ! parent p)"
      proof (cases "j = k")
        case True
        with ys_k ypp ppp show ?thesis by simp
      next
        case False
        have "j \<noteq> p" using j parent_less[of j] by auto
        with False jlen have "?ys ! j = xs ! j" by (simp add: ys_o)
        moreover from A jlen j False have "fst (xs ! j) \<le> fst (xs ! p)" by auto
        ultimately show ?thesis using ypp ppp by simp
      qed
    qed
    have "heap_inv (rise ?ys p)"
    proof (rule "1.IH"[folded p_def])
      show "0 < k \<and> k < length xs \<and> fst (xs ! p) < fst (xs ! k)" using True kl by (simp add: p_def)
      show "p < length ?ys" using pl by simp
      show "\<forall>j < length ?ys. 0 < j \<and> j \<noteq> p \<longrightarrow> fst (?ys ! j) \<le> fst (?ys ! parent j)" by (rule A')
      show "0 < p \<longrightarrow> (\<forall>j < length ?ys. 0 < j \<and> parent j = p \<longrightarrow> fst (?ys ! j) \<le> fst (?ys ! parent p))"
        by (rule B')
    qed
    then show ?thesis by (simp only: s)
  qed
qed

lemma heap_add_heap_inv:
  assumes "heap_inv xs"
  shows "heap_inv (heap_add xs x)"
  unfolding heap_add_def
proof (rule rise_heap_inv)
  show "length xs < length (xs @ [x])" by simp
  show "\<forall>j < length (xs @ [x]). 0 < j \<and> j \<noteq> length xs \<longrightarrow>
          fst ((xs @ [x]) ! j) \<le> fst ((xs @ [x]) ! parent j)"
  proof (intro allI impI)
    fix j assume "j < length (xs @ [x])" and j: "0 < j \<and> j \<noteq> length xs"
    then have jl: "j < length xs" by simp
    then have "parent j < length xs" using j parent_less[of j] by auto
    with jl assms j show "fst ((xs @ [x]) ! j) \<le> fst ((xs @ [x]) ! parent j)"
      by (simp add: nth_append heap_inv_iff)
  qed
  show "0 < length xs \<longrightarrow> (\<forall>j < length (xs @ [x]). 0 < j \<and> parent j = length xs \<longrightarrow>
          fst ((xs @ [x]) ! j) \<le> fst ((xs @ [x]) ! parent (length xs)))"
  proof (intro allI impI)
    fix j assume "j < length (xs @ [x])" and j: "0 < j \<and> parent j = length xs"
    then have "j \<le> length xs" by simp
    moreover have "parent j < j" using j parent_less[of j] by auto
    ultimately have False using j by simp
    then show "fst ((xs @ [x]) ! j) \<le> fst ((xs @ [x]) ! parent (length xs))" ..
  qed
qed

lemma fold_heap_add_heap_inv:
  "heap_inv h \<Longrightarrow> heap_inv (fold (\<lambda>e h. heap_add h e) es h)"
  by (induction es arbitrary: h) (simp_all add: heap_add_heap_inv)

lemma heap_inv_root_max:
  assumes "heap_inv xs" "j < length xs"
  shows "fst (xs ! j) \<le> fst (xs ! 0)"
  using assms(2)
proof (induction j rule: less_induct)
  case (less j)
  show ?case
  proof (cases "j = 0")
    case True
    then show ?thesis by simp
  next
    case False
    then have p: "parent j < j" by (simp add: parent_less)
    with less.prems have "parent j < length xs" by simp
    with less.IH[OF p] have "fst (xs ! parent j) \<le> fst (xs ! 0)" by simp
    moreover have "fst (xs ! j) \<le> fst (xs ! parent j)"
      using assms(1) less.prems False by (simp add: heap_inv_iff)
    ultimately show ?thesis by simp
  qed
qed

lemma heap_inv_hd_max:
  assumes "heap_inv xs" "e \<in> set xs"
  shows "fst e \<le> fst (hd xs)"
proof -
  from assms(2) obtain j where "j < length xs" "xs ! j = e" by (auto simp: in_set_conv_nth)
  with heap_inv_root_max[OF assms(1), of j] show ?thesis by (cases xs) auto
qed

lemma get_max_heap_inv:
  assumes "heap_inv xs" "get_max xs = Inr (e, h')"
  shows "heap_inv h'"
proof (cases xs)
  case Nil
  with assms(2) show ?thesis by (simp add: get_max_def)
next
  case (Cons x ys)
  let ?zs = "butlast (xs[0 := last xs])"
  have "get_max xs = Inr (x, sink ?zs 0)" unfolding get_max_def Cons by simp
  with assms(2) have h': "h' = sink ?zs 0" by simp
  have len: "length ?zs = length ys" using Cons by simp
  have nz: "?zs ! j = xs ! j" if "0 < j" "j < length ?zs" for j
    using that by (simp add: nth_butlast)
  have "heap_from (sink ?zs 0) 0"
  proof (rule sink_heap_from)
    show "(0::nat) \<le> 0" by simp
    show "\<forall>j < length ?zs. 0 < j \<and> 0 \<le> parent j \<and> parent j \<noteq> 0 \<longrightarrow>
            fst (?zs ! j) \<le> fst (?zs ! parent j)"
    proof (intro allI impI)
      fix j assume jl: "j < length ?zs" and j: "0 < j \<and> 0 \<le> parent j \<and> parent j \<noteq> 0"
      have pl: "parent j < length ?zs" using jl j parent_less[of j] by auto
      have "j < length xs" using jl by simp
      with assms(1) j have "fst (xs ! j) \<le> fst (xs ! parent j)" by (simp add: heap_inv_iff)
      with nz[of j] nz[of "parent j"] jl j pl show "fst (?zs ! j) \<le> fst (?zs ! parent j)" by simp
    qed
    show "0 < (0::nat) \<and> 0 \<le> parent 0 \<longrightarrow>
            (\<forall>j < length ?zs. 0 < j \<and> parent j = 0 \<longrightarrow> fst (?zs ! j) \<le> fst (?zs ! parent 0))"
      by simp
  qed
  then show ?thesis by (simp add: h' heap_inv_from)
qed

lemma heapify_aux_heap_inv:
  "heap_from xs k \<Longrightarrow> heap_inv (heapify_aux xs k)"
proof (induction k arbitrary: xs)
  case 0
  then show ?case by (simp add: heap_inv_from)
next
  case (Suc k)
  have "heap_from (sink xs k) k"
  proof (rule sink_heap_from)
    show "k \<le> k" by simp
    show "\<forall>j < length xs. 0 < j \<and> k \<le> parent j \<and> parent j \<noteq> k \<longrightarrow>
            fst (xs ! j) \<le> fst (xs ! parent j)"
      using Suc.prems by (auto simp: heap_from_def)
    show "0 < k \<and> k \<le> parent k \<longrightarrow>
            (\<forall>j < length xs. 0 < j \<and> parent j = k \<longrightarrow> fst (xs ! j) \<le> fst (xs ! parent k))"
      using parent_less[of k] by auto
  qed
  then show ?case using Suc.IH by simp
qed

lemma heapify_heap_inv: "heap_inv (heapify xs)"
  unfolding heapify_def
proof (rule heapify_aux_heap_inv)
  have "\<not> (length xs div 2 \<le> parent j)" if "j < length xs" "0 < j" for j
    using that unfolding parent_def by presburger
  then show "heap_from xs (length xs div 2)" by (auto simp: heap_from_def)
qed

lemma mset_heapify_aux: "mset (heapify_aux xs k) = mset xs"
  by (induction k arbitrary: xs) (simp_all add: mset_sink)

lemma mset_heapify: "mset (heapify xs) = mset xs"
  by (simp add: heapify_def mset_heapify_aux)

lemma get_max_remaining_le:
  assumes "heap_inv h" "get_max h = Inr ((r, t), h1)" "e \<in> set h1"
  shows "fst e \<le> r"
proof -
  have ne: "h \<noteq> []" using assms(2) by (auto simp: get_max_def)
  from get_max_nonempty[OF ne] assms(2) have hd: "hd h = (r, t)" and m: "mset h = add_mset (r, t) (mset h1)"
    by auto
  from m assms(3) have "e \<in> set h" by (metis insert_iff mset_eq_setD set_mset_add_mset_insert set_mset_mset)
  from heap_inv_hd_max[OF assms(1) this] hd show ?thesis by simp
qed

lemma mystical_loop_heap:
  assumes "heap_inv h"
  shows "\<exists>res h' rej. mystical_loop h cap temp = Inr (res, h', temp @ rej) \<and> heap_inv h' \<and>
      (\<forall>e \<in> set rej. cap < weight (snd e)) \<and>
      sorted_wrt (\<lambda>a b. fst b \<le> fst a) rej \<and>
      (case res of
         None \<Rightarrow> h' = [] \<and> mset h = mset rej
       | Some t \<Rightarrow> weight t \<le> cap \<and>
           (\<exists>r. mset h = add_mset (r, t) (mset rej + mset h') \<and>
                (\<forall>e \<in> set rej. r \<le> fst e) \<and> (\<forall>e \<in> set h'. fst e \<le> r)))"
  using assms
proof (induction h cap temp rule: mystical_loop.induct)
  case (1 h cap temp)
  note inv = "1.prems"
  show ?case
  proof (cases "h = []")
    case True
    then have "mystical_loop h cap temp = Inr (None, h, temp @ [])"
      by (subst mystical_loop.simps) simp
    with True inv show ?thesis by (intro exI[of _ None] exI[of _ h] exI[of _ "[]"]) simp
  next
    case False
    obtain r t where hd: "hd h = (r, t)" by (cases "hd h")
    from get_max_nonempty[OF False] hd obtain h1 where
      g: "get_max h = Inr ((r, t), h1)" and m: "mset h = add_mset (r, t) (mset h1)" by auto
    have inv1: "heap_inv h1" using inv g by (rule get_max_heap_inv)
    have le1: "\<forall>e \<in> set h1. fst e \<le> r" using get_max_remaining_le[OF inv g] by blast
    have seth: "set h = insert (r, t) (set h1)"
      using m by (metis mset_eq_setD set_mset_add_mset_insert set_mset_mset)
    show ?thesis
    proof (cases "weight t \<le> cap")
      case True
      have "mystical_loop h cap temp = Inr (Some t, h1, temp @ [])"
        using False g True by (subst mystical_loop.simps) simp
      with True m inv1 le1 show ?thesis
        by (intro exI[of _ "Some t"] exI[of _ h1] exI[of _ "[]"]) auto
    next
      case nofit: False
      have eq: "mystical_loop h cap temp = mystical_loop h1 cap (temp @ [(r, t)])"
        using False g nofit by (subst mystical_loop.simps) simp
      have "\<exists>res h' rej. mystical_loop h1 cap (temp @ [(r, t)]) = Inr (res, h', (temp @ [(r, t)]) @ rej) \<and>
          heap_inv h' \<and>
          (\<forall>e \<in> set rej. cap < weight (snd e)) \<and>
          sorted_wrt (\<lambda>a b. fst b \<le> fst a) rej \<and>
          (case res of
             None \<Rightarrow> h' = [] \<and> mset h1 = mset rej
           | Some t' \<Rightarrow> weight t' \<le> cap \<and>
               (\<exists>r'. mset h1 = add_mset (r', t') (mset rej + mset h') \<and>
                    (\<forall>e \<in> set rej. r' \<le> fst e) \<and> (\<forall>e \<in> set h'. fst e \<le> r')))"
      proof (rule "1.IH"[of "((r, t), h1)" "(r, t)" h1 r t])
        show "length h \<noteq> 0" using False by simp
        show "get_max h = Inr ((r, t), h1)" by (rule g)
        show "((r, t), h1) = ((r, t), h1)" by (rule refl)
        show "(r, t) = (r, t)" by (rule refl)
        show "\<not> weight t \<le> cap" by (rule nofit)
        show "heap_inv h1" by (rule inv1)
      qed
      then obtain res h' rej where
        l: "mystical_loop h1 cap (temp @ [(r, t)]) = Inr (res, h', (temp @ [(r, t)]) @ rej)"
        and i': "heap_inv h'"
        and rj: "\<forall>e \<in> set rej. cap < weight (snd e)"
        and so: "sorted_wrt (\<lambda>a b. fst b \<le> fst a) rej"
        and c: "case res of
             None \<Rightarrow> h' = [] \<and> mset h1 = mset rej
           | Some t' \<Rightarrow> weight t' \<le> cap \<and>
               (\<exists>r'. mset h1 = add_mset (r', t') (mset rej + mset h') \<and>
                    (\<forall>e \<in> set rej. r' \<le> fst e) \<and> (\<forall>e \<in> set h'. fst e \<le> r'))"
        by blast
      have sub: "set rej \<subseteq> set h1"
      proof (cases res)
        case None
        with c have "mset h1 = mset rej" by simp
        then show ?thesis by (metis mset_eq_setD order_refl)
      next
        case (Some t')
        with c obtain r' where "mset h1 = add_mset (r', t') (mset rej + mset h')" by auto
        then have "set_mset (mset rej) \<subseteq> set_mset (mset h1)" by auto
        then show ?thesis by simp
      qed
      have r1: "mystical_loop h cap temp = Inr (res, h', temp @ ((r, t) # rej))"
        using eq l by simp
      have r2: "\<forall>e \<in> set ((r, t) # rej). cap < weight (snd e)"
        using rj nofit by simp
      have r3: "sorted_wrt (\<lambda>a b. fst b \<le> fst a) ((r, t) # rej)"
        using so sub le1 by auto
      have r5: "case res of
             None \<Rightarrow> h' = [] \<and> mset h = mset ((r, t) # rej)
           | Some t' \<Rightarrow> weight t' \<le> cap \<and>
               (\<exists>r'. mset h = add_mset (r', t') (mset ((r, t) # rej) + mset h') \<and>
                    (\<forall>e \<in> set ((r, t) # rej). r' \<le> fst e) \<and> (\<forall>e \<in> set h'. fst e \<le> r'))"
      proof (cases res)
        case None
        with c m show ?thesis by simp
      next
        case (Some t')
        with c obtain r' where r': "weight t' \<le> cap" "mset h1 = add_mset (r', t') (mset rej + mset h')"
          "\<forall>e \<in> set rej. r' \<le> fst e" "\<forall>e \<in> set h'. fst e \<le> r'" by auto
        from r'(2) have "(r', t') \<in> set h1"
          by (metis mset_eq_setD insertI1 set_mset_add_mset_insert set_mset_mset)
        with le1 have "r' \<le> r" by auto
        with r' m Some show ?thesis by (auto intro!: exI[of _ r'])
      qed
      from r1 i' r2 r3 r5 show ?thesis by blast
    qed
  qed
qed

lemma mystical_tuples_ok:
  "\<forall>t \<in> set ts. weight t \<noteq> 0 \<Longrightarrow> mystical_tuples ts = Inr (map (\<lambda>t. (ratio t, t)) ts)"
  by (induction ts) (auto simp: ratio_def)

lemma new_SpookyHollow_inv:
  assumes "new_SpookyHollow ts = Inr h"
  shows "hollow_inv h"
proof -
  from assms obtain tuples t where t: "BetterBST tuples = Inr t" "h = SpookyHollow t"
    by (auto simp: new_SpookyHollow_def spooky_restructure_hollow_def map_sum_def split: sum.splits)
  from BetterBST_inorder[of tuples] t(1) have "bst_inv t" by auto
  with t(2) show ?thesis by simp
qed

lemma new_MysticalHollow_inv: "new_MysticalHollow ts = Inr h \<Longrightarrow> hollow_inv h"
  by (auto simp: new_MysticalHollow_def mystical_restructure_hollow_def heapify_heap_inv
      split: sum.splits)


lemma mystical_get_optimal_treasure_result:
  assumes "heap_inv h"
  shows "\<exists>res h' rej.
     mystical_loop h cap [] = Inr (res, h', rej) \<and>
     mystical_get_optimal_treasure h cap = Inr (res, fold (\<lambda>e h. heap_add h e) rej h') \<and>
     heap_inv (fold (\<lambda>e h. heap_add h e) rej h') \<and>
     (\<forall>e \<in> set rej. cap < weight (snd e)) \<and>
     sorted_wrt (\<lambda>a b. fst b \<le> fst a) rej \<and>
     (case res of
        None \<Rightarrow> h' = [] \<and> mset rej = mset h \<and> mset (fold (\<lambda>e h. heap_add h e) rej h') = mset h
      | Some t \<Rightarrow> weight t \<le> cap \<and>
          (\<exists>r. (\<forall>e \<in> set rej. r \<le> fst e) \<and>
               (\<forall>e \<in> set h. weight (snd e) \<le> cap \<longrightarrow> fst e \<le> r) \<and>
               mset h = add_mset (r, t) (mset (fold (\<lambda>e h. heap_add h e) rej h'))))"
proof -
  from mystical_loop_heap[OF assms, of cap "[]"] obtain res h' rej where
    l: "mystical_loop h cap [] = Inr (res, h', rej)" and i: "heap_inv h'"
    and rj: "\<forall>e \<in> set rej. cap < weight (snd e)"
    and so: "sorted_wrt (\<lambda>a b. fst b \<le> fst a) rej"
    and c: "case res of
         None \<Rightarrow> h' = [] \<and> mset h = mset rej
       | Some t \<Rightarrow> weight t \<le> cap \<and>
           (\<exists>r. mset h = add_mset (r, t) (mset rej + mset h') \<and>
                (\<forall>e \<in> set rej. r \<le> fst e) \<and> (\<forall>e \<in> set h'. fst e \<le> r))"
    by auto
  let ?f = "fold (\<lambda>e h. heap_add h e) rej h'"
  have g: "mystical_get_optimal_treasure h cap = Inr (res, ?f)"
    by (simp add: mystical_get_optimal_treasure_def l)
  have fi: "heap_inv ?f" using i by (rule fold_heap_add_heap_inv)
  have fm: "mset ?f = mset h' + mset rej" by (rule mset_fold_heap_add)
  have "case res of
        None \<Rightarrow> h' = [] \<and> mset rej = mset h \<and> mset ?f = mset h
      | Some t \<Rightarrow> weight t \<le> cap \<and>
          (\<exists>r. (\<forall>e \<in> set rej. r \<le> fst e) \<and>
               (\<forall>e \<in> set h. weight (snd e) \<le> cap \<longrightarrow> fst e \<le> r) \<and>
               mset h = add_mset (r, t) (mset ?f))"
  proof (cases res)
    case None
    with c fm show ?thesis by simp
  next
    case (Some t)
    with c obtain r where r: "weight t \<le> cap" "mset h = add_mset (r, t) (mset rej + mset h')"
      "\<forall>e \<in> set rej. r \<le> fst e" "\<forall>e \<in> set h'. fst e \<le> r" by auto
    have "fst e \<le> r" if "e \<in> set h" "weight (snd e) \<le> cap" for e
    proof -
      from r(2) have "set h = insert (r, t) (set rej \<union> set h')"
        by (metis mset_eq_setD set_mset_add_mset_insert set_mset_mset set_mset_union)
      with that(1) consider "e = (r, t)" | "e \<in> set rej" | "e \<in> set h'" by auto
      then show ?thesis
      proof cases
        case 1 then show ?thesis by simp
      next
        case 2 with rj that(2) show ?thesis by auto
      next
        case 3 with r(4) show ?thesis by simp
      qed
    qed
    with r Some fm show ?thesis by (auto intro!: exI[of _ r] simp: ac_simps)
  qed
  with l g fi rj so show ?thesis by blast
qed

lemma get_optimal_treasure_result:
  assumes "hollow_inv h"
  shows "\<exists>res h'. get_optimal_treasure h cap = Inr (res, h') \<and> hollow_inv h' \<and>
     (case res of
        Some t \<Rightarrow> weight t \<le> cap \<and> Suc (hollow_len h') = hollow_len h
      | None \<Rightarrow> hollow_len h' = hollow_len h \<and> hollow_treasures h' = hollow_treasures h \<and>
                hollow_entries h' = hollow_entries h)"
proof (cases h)
  case (SpookyHollow t)
  with assms have "bst_inv t" by simp
  from spooky_get_optimal_treasure_result[OF this, of cap] obtain res t' where
    r: "spooky_get_optimal_treasure t cap = Inr (res, t')" "bst_inv t'"
    and c: "case res of
        None \<Rightarrow> t' = t \<and> (\<forall>e \<in> set (inorder t). cap < weight (snd e))
      | Some tr \<Rightarrow> weight tr \<le> cap \<and> Suc (bst_len t') = bst_len t \<and>
          (\<exists>k v. (k, tr) \<in> set (inorder t) \<and> mset (inorder t) = add_mset (k, v) (mset (inorder t')))"
    by blast
  have "get_optimal_treasure h cap = Inr (res, SpookyHollow t')"
    using SpookyHollow r(1) by simp
  moreover have "hollow_inv (SpookyHollow t')" using r(2) by simp
  moreover have "case res of
        Some tr \<Rightarrow> weight tr \<le> cap \<and> Suc (hollow_len (SpookyHollow t')) = hollow_len h
      | None \<Rightarrow> hollow_len (SpookyHollow t') = hollow_len h \<and>
                hollow_treasures (SpookyHollow t') = hollow_treasures h \<and>
                hollow_entries (SpookyHollow t') = hollow_entries h"
    using c SpookyHollow by (auto split: option.splits simp: hollow_treasures_def)
  ultimately show ?thesis by blast
next
  case (MysticalHollow hp)
  with assms have "heap_inv hp" by simp
  from mystical_get_optimal_treasure_result[OF this, of cap] obtain res h' rej where
    g: "mystical_get_optimal_treasure hp cap = Inr (res, fold (\<lambda>e h. heap_add h e) rej h')"
    and i: "heap_inv (fold (\<lambda>e h. heap_add h e) rej h')"
    and c: "case res of
        None \<Rightarrow> h' = [] \<and> mset rej = mset hp \<and> mset (fold (\<lambda>e h. heap_add h e) rej h') = mset hp
      | Some t \<Rightarrow> weight t \<le> cap \<and>
          (\<exists>r. (\<forall>e \<in> set rej. r \<le> fst e) \<and>
               (\<forall>e \<in> set hp. weight (snd e) \<le> cap \<longrightarrow> fst e \<le> r) \<and>
               mset hp = add_mset (r, t) (mset (fold (\<lambda>e h. heap_add h e) rej h')))"
    by blast
  let ?f = "fold (\<lambda>e h. heap_add h e) rej h'"
  have "get_optimal_treasure h cap = Inr (res, MysticalHollow ?f)"
    using MysticalHollow g by simp
  moreover have "hollow_inv (MysticalHollow ?f)" using i by simp
  moreover have "case res of
        Some t \<Rightarrow> weight t \<le> cap \<and> Suc (hollow_len (MysticalHollow ?f)) = hollow_len h
      | None \<Rightarrow> hollow_len (MysticalHollow ?f) = hollow_len h \<and>
                hollow_treasures (MysticalHollow ?f) = hollow_treasures h \<and>
                hollow_entries (MysticalHollow ?f) = hollow_entries h"
  proof (cases res)
    case None
    have m: "mset ?f = mset hp"
      using c[unfolded None option.case] by (elim conjE)
    then have "length ?f = length hp" by (rule mset_eq_length)
    with m None MysticalHollow show ?thesis by (simp add: hollow_treasures_def)
  next
    case (Some t)
    with c obtain r where "weight t \<le> cap" "mset hp = add_mset (r, t) (mset ?f)" by auto
    moreover from this(2) have "size (mset hp) = size (add_mset (r, t) (mset ?f))" by (rule arg_cong)
    then have "length hp = Suc (length ?f)" by (simp only: size_mset size_add_mset)
    ultimately show ?thesis using Some MysticalHollow by simp
  qed
  ultimately show ?thesis by blast
qed


section \<open>Moves and path search\<close>

lemma py_index_in_range: "0 \<le> i \<Longrightarrow> i < int n \<Longrightarrow> py_index n i = Inr (nat i)"
  by (simp add: py_index_def)

lemma grid_index_in_bounds:
  assumes "grid_shape self" "in_bounds self p"
  shows "grid_index (grid self) p = Inr (nat (row p), nat (col p))"
proof -
  from assms have r: "0 \<le> row p" "row p < int (length (grid self))"
    by (auto simp: grid_shape_def in_bounds_def)
  then have "grid self ! nat (row p) \<in> set (grid self)" by simp
  with assms have c: "0 \<le> col p" "col p < int (length (grid self ! nat (row p)))"
    by (auto simp: grid_shape_def in_bounds_def list_all_iff)
  show ?thesis
    by (simp add: grid_index_def py_index_in_range[OF r] py_index_in_range[OF c])
qed

lemma is_valid_position_shape:
  assumes "grid_shape self"
  shows "is_valid_position T self p =
         Inr (in_bounds self p \<and> tile (grid self ! nat (row p) ! nat (col p)) \<noteq> Tile_str (WALL T))"
proof (cases "in_bounds self p")
  case True
  with grid_index_in_bounds[OF assms True] show ?thesis
    by (simp add: is_valid_position_def grid_get_def in_bounds_def)
next
  case False
  then show ?thesis by (auto simp: is_valid_position_def in_bounds_def)
qed

lemma available_from_shape:
  assumes "grid_shape self"
  shows "available_from T self p ds =
         Inr (filter (\<lambda>q. in_bounds self q \<and> tile (grid self ! nat (row q) ! nat (col q)) \<noteq> Tile_str (WALL T))
                (map (\<lambda>(dr, dc). \<lparr>row = row p + dr, col = col p + dc\<rparr>) ds))"
  by (induction ds) (auto simp: is_valid_position_shape[OF assms] Let_def)


lemma py_index_range: "py_index n i = Inr k \<Longrightarrow> k < n"
  by (auto simp: py_index_def split: if_splits)

lemma grid_index_range:
  "grid_index g p = Inr (i, j) \<Longrightarrow> i < length g \<and> j < length (g ! i)"
  by (auto simp: grid_index_def split: sum.splits dest: py_index_range)

lemma grid_index_shape:
  assumes "map length g' = map length g"
  shows "grid_index g' p = grid_index g p"
proof -
  have l: "length g' = length g" using assms by (metis length_map)
  have "length (g' ! i) = length (g ! i)" if "i < length g" for i
    using assms that l by (metis nth_map)
  then show ?thesis
    unfolding grid_index_def l by (auto split: sum.splits dest: py_index_range)
qed

lemma length_filter_update:
  "j < length r \<Longrightarrow>
   length (filter P (r[j := y])) + (if P (r ! j) then 1 else 0) =
   length (filter P r) + (if P y then 1 else 0)"
proof (induction r arbitrary: j)
  case Nil
  then show ?case by simp
next
  case (Cons x r)
  show ?case
  proof (cases j)
    case 0
    then show ?thesis by simp
  next
    case (Suc k)
    with Cons.prems have "k < length r" by simp
    from Cons.IH[OF this] Suc show ?thesis by simp
  qed
qed

lemma length_filter_concat_update:
  "i < length g \<Longrightarrow>
   length (filter P (concat (g[i := r']))) + length (filter P (g ! i)) =
   length (filter P (concat g)) + length (filter P r')"
proof (induction g arbitrary: i)
  case Nil
  then show ?case by simp
next
  case (Cons x g)
  show ?case
  proof (cases i)
    case 0
    then show ?thesis by simp
  next
    case (Suc k)
    with Cons.prems have "k < length g" by simp
    from Cons.IH[OF this] Suc show ?thesis by simp
  qed
qed

lemma unvisited_count_mark:
  assumes "i < length g" "j < length (g ! i)" "\<not> visited (g ! i ! j)"
  shows "Suc (unvisited_count (g[i := (g ! i)[j := (g ! i ! j)\<lparr>visited := True\<rparr>]])) = unvisited_count g"
proof -
  let ?P = "\<lambda>c. \<not> visited c"
  let ?r = "(g ! i)[j := (g ! i ! j)\<lparr>visited := True\<rparr>]"
  have "length (filter ?P ?r) + (if ?P (g ! i ! j) then 1 else 0) =
        length (filter ?P (g ! i)) + (if ?P ((g ! i ! j)\<lparr>visited := True\<rparr>) then 1 else 0)"
    using assms(2) by (rule length_filter_update)
  then have a: "Suc (length (filter ?P ?r)) = length (filter ?P (g ! i))"
    using assms(3) by simp
  have "length (filter ?P (concat (g[i := ?r]))) + length (filter ?P (g ! i)) =
        length (filter ?P (concat g)) + length (filter ?P ?r)"
    using assms(1) by (rule length_filter_concat_update)
  with a show ?thesis unfolding unvisited_count_def by linarith
qed

lemma unvisited_count_le: "unvisited_count g \<le> length (concat g)"
  by (simp add: unvisited_count_def)

lemma marked_run_refl: "marked_run m ex m ex"
  unfolding marked_run_def by (intro exI[of _ "[]"]) simp

lemma marked_run_mark:
  assumes "grid_index (grid m) p = Inr (i, j)" "\<not> visited (grid m ! i ! j)"
    "p \<notin> set (end_positions m)"
  shows "marked_run m ex
           (m\<lparr>grid := (grid m)[i := (grid m ! i)[j := (grid m ! i ! j)\<lparr>visited := True\<rparr>]]\<rparr>)
           (ex @ [p])"
proof -
  let ?g = "grid m"
  let ?g' = "?g[i := (?g ! i)[j := (?g ! i ! j)\<lparr>visited := True\<rparr>]]"
  from grid_index_range[OF assms(1)] have r: "i < length ?g" "j < length (?g ! i)" by simp_all
  have shape: "map length ?g' = map length ?g"
    using r by (simp add: map_update list_update_same_conv)
  have cells: "?g' ! a ! b = (if Inr (a, b) \<in> grid_index ?g ` set [p]
              then (?g ! a ! b)\<lparr>visited := True\<rparr> else ?g ! a ! b)"
    if "a < length ?g" "b < length (?g ! a)" for a b
    using that r assms(1) by (auto simp: nth_list_update)
  show ?thesis
    unfolding marked_run_def
  proof (intro exI[of _ "[p]"] conjI)
    show "ex @ [p] = ex @ [p]" by simp
    show "m\<lparr>grid := ?g'\<rparr> = m\<lparr>grid := grid (m\<lparr>grid := ?g'\<rparr>)\<rparr>" by simp
    show "map length (grid (m\<lparr>grid := ?g'\<rparr>)) = map length ?g" using shape by simp
    show "\<forall>p \<in> set [p]. p \<notin> set (end_positions m)" using assms(3) by simp
    show "distinct (map (grid_index ?g) [p])" by simp
    show "\<forall>p \<in> set [p]. \<exists>i j. grid_index ?g p = Inr (i, j) \<and> \<not> visited (?g ! i ! j)"
      using assms(1,2) by simp
    show "\<forall>a b. a < length ?g \<longrightarrow> b < length (?g ! a) \<longrightarrow>
           grid (m\<lparr>grid := ?g'\<rparr>) ! a ! b =
             (if Inr (a, b) \<in> grid_index ?g ` set [p]
              then (?g ! a ! b)\<lparr>visited := True\<rparr> else ?g ! a ! b)"
      using cells by simp
  qed
qed

lemma marked_run_trans:
  assumes "marked_run m ex m1 ex1" "marked_run m1 ex1 m2 ex2"
  shows "marked_run m ex m2 ex2"
proof -
  from assms(1) obtain n1 where a:
    "ex1 = ex @ n1" "m1 = m\<lparr>grid := grid m1\<rparr>" "map length (grid m1) = map length (grid m)"
    "\<forall>p \<in> set n1. p \<notin> set (end_positions m)"
    "distinct (map (grid_index (grid m)) n1)"
    "\<forall>p \<in> set n1. \<exists>i j. grid_index (grid m) p = Inr (i, j) \<and> \<not> visited (grid m ! i ! j)"
    "\<forall>i j. i < length (grid m) \<longrightarrow> j < length (grid m ! i) \<longrightarrow>
           grid m1 ! i ! j =
             (if Inr (i, j) \<in> grid_index (grid m) ` set n1
              then (grid m ! i ! j)\<lparr>visited := True\<rparr> else grid m ! i ! j)"
    unfolding marked_run_def by blast
  from assms(2) obtain n2 where b:
    "ex2 = ex1 @ n2" "m2 = m1\<lparr>grid := grid m2\<rparr>" "map length (grid m2) = map length (grid m1)"
    "\<forall>p \<in> set n2. p \<notin> set (end_positions m1)"
    "distinct (map (grid_index (grid m1)) n2)"
    "\<forall>p \<in> set n2. \<exists>i j. grid_index (grid m1) p = Inr (i, j) \<and> \<not> visited (grid m1 ! i ! j)"
    "\<forall>i j. i < length (grid m1) \<longrightarrow> j < length (grid m1 ! i) \<longrightarrow>
           grid m2 ! i ! j =
             (if Inr (i, j) \<in> grid_index (grid m1) ` set n2
              then (grid m1 ! i ! j)\<lparr>visited := True\<rparr> else grid m1 ! i ! j)"
    unfolding marked_run_def by blast
  have gi: "grid_index (grid m1) = grid_index (grid m)"
    using grid_index_shape[OF a(3)] by (intro ext)
  have len: "length (grid m1) = length (grid m)" using a(3) by (metis length_map)
  have leni: "length (grid m1 ! i) = length (grid m ! i)" if "i < length (grid m)" for i
    using a(3) that len by (metis nth_map)
  have ends: "end_positions m1 = end_positions m"
    using a(2) by (metis Maze.select_convs(2) Maze.surjective Maze.update_convs(5))
  have c1: "ex2 = ex @ (n1 @ n2)" using a(1) b(1) by simp
  have c2: "m2 = m\<lparr>grid := grid m2\<rparr>"
    using a(2) b(2) by (metis Maze.update_convs(5) Maze.surjective)
  have c3: "map length (grid m2) = map length (grid m)" using a(3) b(3) by simp
  have c4: "\<forall>p \<in> set (n1 @ n2). p \<notin> set (end_positions m)" using a(4) b(4) ends by auto
  have fresh: "\<exists>i j. grid_index (grid m) p = Inr (i, j) \<and> \<not> visited (grid m ! i ! j) \<and>
                 Inr (i, j) \<notin> grid_index (grid m) ` set n1" if "p \<in> set n2" for p
  proof -
    from b(6) that gi obtain i j where ij: "grid_index (grid m) p = Inr (i, j)"
      "\<not> visited (grid m1 ! i ! j)" by auto
    from grid_index_range[OF ij(1)] have r: "i < length (grid m)" "j < length (grid m ! i)" by simp_all
    from a(7) r have e: "grid m1 ! i ! j =
             (if Inr (i, j) \<in> grid_index (grid m) ` set n1
              then (grid m ! i ! j)\<lparr>visited := True\<rparr> else grid m ! i ! j)" by blast
    have "Inr (i, j) \<notin> grid_index (grid m) ` set n1"
    proof
      assume "Inr (i, j) \<in> grid_index (grid m) ` set n1"
      with e have "visited (grid m1 ! i ! j)" by simp
      with ij(2) show False by simp
    qed
    moreover from this e ij(2) have "\<not> visited (grid m ! i ! j)" by simp
    ultimately show ?thesis using ij(1) by blast
  qed
  have c5: "distinct (map (grid_index (grid m)) (n1 @ n2))"
  proof -
    have "grid_index (grid m) ` set n1 \<inter> grid_index (grid m) ` set n2 = {}"
    proof (rule ccontr)
      assume "grid_index (grid m) ` set n1 \<inter> grid_index (grid m) ` set n2 \<noteq> {}"
      then obtain p where p: "p \<in> set n2" "grid_index (grid m) p \<in> grid_index (grid m) ` set n1"
        by (metis (no_types, lifting) disjoint_iff image_iff)
      from fresh[OF p(1)] p(2) show False by auto
    qed
    with a(5) b(5) gi show ?thesis by simp
  qed
  have c6: "\<forall>p \<in> set (n1 @ n2). \<exists>i j. grid_index (grid m) p = Inr (i, j) \<and> \<not> visited (grid m ! i ! j)"
  proof
    fix p assume "p \<in> set (n1 @ n2)"
    then consider "p \<in> set n1" | "p \<in> set n2" by auto
    then show "\<exists>i j. grid_index (grid m) p = Inr (i, j) \<and> \<not> visited (grid m ! i ! j)"
    proof cases
      case 1 with a(6) show ?thesis by blast
    next
      case 2 from fresh[OF 2] show ?thesis by blast
    qed
  qed
  have c7: "grid m2 ! i ! j =
             (if Inr (i, j) \<in> grid_index (grid m) ` set (n1 @ n2)
              then (grid m ! i ! j)\<lparr>visited := True\<rparr> else grid m ! i ! j)"
    if "i < length (grid m)" "j < length (grid m ! i)" for i j
  proof -
    from a(7) that have e1: "grid m1 ! i ! j =
             (if Inr (i, j) \<in> grid_index (grid m) ` set n1
              then (grid m ! i ! j)\<lparr>visited := True\<rparr> else grid m ! i ! j)" by blast
    from b(7) that len leni gi have e2: "grid m2 ! i ! j =
             (if Inr (i, j) \<in> grid_index (grid m) ` set n2
              then (grid m1 ! i ! j)\<lparr>visited := True\<rparr> else grid m1 ! i ! j)" by simp
    show ?thesis unfolding e2 e1 by (auto simp: image_Un)
  qed
  show ?thesis
    unfolding marked_run_def
    using c1 c2 c3 c4 c5 c6 c7 by (intro exI[of _ "n1 @ n2"] conjI) blast+
qed

lemma find_path_aux_marked_run:
  "find_path_aux n T m cur path ex = Returned r m' path' ex' \<Longrightarrow> marked_run m ex m' ex'"
  "explore n T m cur avail path ex = Returned r m' path' ex' \<Longrightarrow> marked_run m ex m' ex'"
proof (induction n T m cur path ex and n T m cur avail path ex
    arbitrary: r m' path' ex' and r m' path' ex' rule: find_path_aux_explore.induct)
  case (1 T self cur path ex)
  then show ?case by simp
next
  case (2 n T self cur path ex)
  show ?case
  proof (cases "cur \<in> set (end_positions self)")
    case True
    with "2.prems" have "m' = self" "ex' = ex" by simp_all
    then show ?thesis by (simp add: marked_run_refl)
  next
    case notend: False
    show ?thesis
    proof (cases "grid_index (grid self) cur")
      case (Inl e)
      with "2.prems" notend show ?thesis by simp
    next
      case (Inr b)
      obtain i j where b: "b = (i, j)" by (cases b)
      show ?thesis
      proof (cases "visited (grid self ! i ! j)")
        case True
        with "2.prems" notend Inr b have "m' = self" "ex' = ex" by simp_all
        then show ?thesis by (simp add: marked_run_refl)
      next
        case unv: False
        define m1 where "m1 = self\<lparr>grid := (grid self)[i := (grid self ! i)
                                     [j := (grid self ! i ! j)\<lparr>visited := True\<rparr>]]\<rparr>"
        have step: "marked_run self ex m1 (ex @ [cur])"
          unfolding m1_def using Inr[unfolded b] unv notend by (rule marked_run_mark)
        show ?thesis
        proof (cases "get_available_positions T m1 cur")
          case (Inl e)
          with "2.prems" notend Inr b unv show ?thesis by (simp add: m1_def Let_def)
        next
          case avail: (Inr av)
          have eq: "find_path_aux (Suc n) T self cur path ex =
                    explore n T m1 cur av (path @ [cur]) (ex @ [cur])"
            using notend Inr b unv avail by (simp add: m1_def Let_def)
          have "marked_run m1 (ex @ [cur]) m' ex'"
          proof (rule "2.IH"[of "(i, j)" i j m1 av])
            show "cur \<notin> set (end_positions self)" by (rule notend)
            show "grid_index (grid self) cur = Inr (i, j)" using Inr b by simp
            show "(i, j) = (i, j)" by (rule refl)
            show "\<not> visited (grid self ! i ! j)" by (rule unv)
            show "m1 = self\<lparr>grid := (grid self)[i := (grid self ! i)
                                     [j := (grid self ! i ! j)\<lparr>visited := True\<rparr>]]\<rparr>"
              by (rule m1_def)
            show "get_available_positions T m1 cur = Inr av" by (rule avail)
            show "explore n T m1 cur av (path @ [cur]) (ex @ [cur]) = Returned r m' path' ex'"
              using "2.prems" eq by simp
          qed
          with step show ?thesis by (rule marked_run_trans)
        qed
      qed
    qed
  qed
next
  case (3 n T self cur path ex)
  then have "m' = self" "ex' = ex" by (auto split: if_splits)
  then show ?case by (simp add: marked_run_refl)
next
  case (4 n T self cur nxt rest path ex)
  show ?case
  proof (cases "find_path_aux n T self nxt path ex")
    case OutOfFuel
    with "4.prems" show ?thesis by simp
  next
    case (Raised e)
    with "4.prems" show ?thesis by simp
  next
    case (Returned r1 m1 p1 e1)
    have a: "marked_run self ex m1 e1" using Returned by (rule "4.IH"(1))
    show ?thesis
    proof (cases r1)
      case None
      with Returned "4.prems" have "explore n T m1 cur rest p1 e1 = Returned r m' path' ex'" by simp
      with Returned None have "marked_run m1 e1 m' ex'" by (intro "4.IH"(2)) simp_all
      with a show ?thesis by (rule marked_run_trans)
    next
      case (Some res)
      with Returned "4.prems" have "m' = m1" "ex' = e1" by simp_all
      with a show ?thesis by simp
    qed
  qed
qed

lemma find_path_aux_fuel:
  "(unvisited_count (grid m) < n \<longrightarrow> find_path_aux n T m cur path ex \<noteq> OutOfFuel) \<and>
   (\<forall>r m' path' ex'. find_path_aux n T m cur path ex = Returned r m' path' ex' \<longrightarrow>
       unvisited_count (grid m') \<le> unvisited_count (grid m))"
  "(unvisited_count (grid m) < n \<longrightarrow> explore n T m cur avail path ex \<noteq> OutOfFuel) \<and>
   (\<forall>r m' path' ex'. explore n T m cur avail path ex = Returned r m' path' ex' \<longrightarrow>
       unvisited_count (grid m') \<le> unvisited_count (grid m))"
proof (induction n T m cur path ex and n T m cur avail path ex
    rule: find_path_aux_explore.induct)
  case (1 T self cur path ex)
  then show ?case by simp
next
  case (2 n T self cur path ex)
  show ?case
  proof (cases "cur \<in> set (end_positions self)")
    case True
    then show ?thesis by simp
  next
    case notend: False
    show ?thesis
    proof (cases "grid_index (grid self) cur")
      case (Inl e)
      with notend show ?thesis by simp
    next
      case (Inr b)
      obtain i j where b: "b = (i, j)" by (cases b)
      from grid_index_range[OF Inr[unfolded b]] have rg: "i < length (grid self)"
        "j < length (grid self ! i)" by simp_all
      show ?thesis
      proof (cases "visited (grid self ! i ! j)")
        case True
        with notend Inr b show ?thesis by simp
      next
        case unv: False
        define m1 where "m1 = self\<lparr>grid := (grid self)[i := (grid self ! i)
                                     [j := (grid self ! i ! j)\<lparr>visited := True\<rparr>]]\<rparr>"
        have cnt: "Suc (unvisited_count (grid m1)) = unvisited_count (grid self)"
          unfolding m1_def using unvisited_count_mark[OF rg unv] by simp
        show ?thesis
        proof (cases "get_available_positions T m1 cur")
          case (Inl e)
          with notend Inr b unv show ?thesis by (simp add: m1_def Let_def)
        next
          case avail: (Inr av)
          have eq: "find_path_aux (Suc n) T self cur path ex =
                    explore n T m1 cur av (path @ [cur]) (ex @ [cur])"
            using notend Inr b unv avail by (simp add: m1_def Let_def)
          have ih: "(unvisited_count (grid m1) < n \<longrightarrow>
                      explore n T m1 cur av (path @ [cur]) (ex @ [cur]) \<noteq> OutOfFuel) \<and>
                (\<forall>r m' path' ex'. explore n T m1 cur av (path @ [cur]) (ex @ [cur]) = Returned r m' path' ex' \<longrightarrow>
                   unvisited_count (grid m') \<le> unvisited_count (grid m1))"
          proof (rule "2.IH"[of "(i, j)" i j m1 av])
            show "cur \<notin> set (end_positions self)" by (rule notend)
            show "grid_index (grid self) cur = Inr (i, j)" using Inr b by simp
            show "(i, j) = (i, j)" by (rule refl)
            show "\<not> visited (grid self ! i ! j)" by (rule unv)
            show "m1 = self\<lparr>grid := (grid self)[i := (grid self ! i)
                                     [j := (grid self ! i ! j)\<lparr>visited := True\<rparr>]]\<rparr>"
              by (rule m1_def)
            show "get_available_positions T m1 cur = Inr av" by (rule avail)
          qed
          show ?thesis unfolding eq using ih cnt by (auto simp: less_Suc_eq_le intro: le_trans)
        qed
      qed
    qed
  qed
next
  case (3 n T self cur path ex)
  then show ?case by auto
next
  case (4 n T self cur nxt rest path ex)
  note ih1 = "4.IH"(1)
  show ?case
  proof (cases "find_path_aux n T self nxt path ex")
    case OutOfFuel
    with ih1 show ?thesis by auto
  next
    case (Raised e)
    then show ?thesis by simp
  next
    case (Returned r1 m1 p1 e1)
    with ih1 have le1: "unvisited_count (grid m1) \<le> unvisited_count (grid self)" by simp
    show ?thesis
    proof (cases r1)
      case None
      have ih2: "(unvisited_count (grid m1) < n \<longrightarrow> explore n T m1 cur rest p1 e1 \<noteq> OutOfFuel) \<and>
         (\<forall>r m' path' ex'. explore n T m1 cur rest p1 e1 = Returned r m' path' ex' \<longrightarrow>
            unvisited_count (grid m') \<le> unvisited_count (grid m1))"
        using Returned None by (intro "4.IH"(2)) simp_all
      have eq: "explore n T self cur (nxt # rest) path ex = explore n T m1 cur rest p1 e1"
        using Returned None by simp
      show ?thesis unfolding eq using ih2 le1 by (auto intro: le_trans)
    next
      case (Some res)
      with Returned le1 show ?thesis by simp
    qed
  qed
qed

lemma find_way_out_terminates: "find_way_out T self \<noteq> OutOfFuel"
proof -
  have "unvisited_count (grid self) < Suc (length (concat (grid self)))"
    using unvisited_count_le[of "grid self"] by simp
  with find_path_aux_fuel(1)[of self "Suc (length (concat (grid self)))" T "start_position self" "[]" "[]"]
  show ?thesis by (simp add: find_way_out_def)
qed

lemma marked_run_fields:
  assumes "marked_run m ex m' ex'"
  shows "rows m' = rows m" "cols m' = cols m" "end_positions m' = end_positions m"
    "start_position m' = start_position m" "map length (grid m') = map length (grid m)"
proof -
  from assms have e: "m' = m\<lparr>grid := grid m'\<rparr>" and s: "map length (grid m') = map length (grid m)"
    unfolding marked_run_def by blast+
  show "rows m' = rows m" by (subst e) simp
  show "cols m' = cols m" by (subst e) simp
  show "end_positions m' = end_positions m" by (subst e) simp
  show "start_position m' = start_position m" by (subst e) simp
  show "map length (grid m') = map length (grid m)" by (rule s)
qed

lemma marked_run_grid_shape:
  assumes "marked_run m ex m' ex'" "grid_shape m"
  shows "grid_shape m'" "in_bounds m' = in_bounds m"
proof -
  note f = marked_run_fields[OF assms(1)]
  have "length (grid m') = length (grid m)" using f(5) by (metis length_map)
  moreover have "set (map length (grid m')) = set (map length (grid m))" using f(5) by simp
  then have "(\<forall>r \<in> set (grid m'). length r = nat (cols m)) = (\<forall>r \<in> set (grid m). length r = nat (cols m))"
    by (metis (no_types, lifting) image_iff list.set_map)
  ultimately show "grid_shape m'" using assms(2) f(1,2) by (simp add: grid_shape_def list_all_iff)
  show "in_bounds m' = in_bounds m" by (intro ext) (simp add: in_bounds_def f)
qed

lemma get_available_positions_in_bounds:
  assumes "grid_shape m" "get_available_positions T m p = Inr av"
  shows "list_all (in_bounds m) av"
proof -
  have "get_available_positions T m p = available_from T m p directions"
    by (simp add: get_available_positions_def)
  with assms(2) available_from_shape[OF assms(1), of T p directions]
  show ?thesis by (auto simp: list_all_iff)
qed

lemma find_path_aux_in_bounds:
  "find_path_aux n T m cur path ex = Returned r m' path' ex' \<Longrightarrow> grid_shape m \<Longrightarrow>
   in_bounds m cur \<Longrightarrow> list_all (in_bounds m) (drop (length ex) ex')"
  "explore n T m cur avail path ex = Returned r m' path' ex' \<Longrightarrow> grid_shape m \<Longrightarrow>
   list_all (in_bounds m) avail \<Longrightarrow> list_all (in_bounds m) (drop (length ex) ex')"
proof (induction n T m cur path ex and n T m cur avail path ex
    arbitrary: r m' path' ex' and r m' path' ex' rule: find_path_aux_explore.induct)
  case (1 T self cur path ex)
  then show ?case by simp
next
  case (2 n T self cur path ex)
  note run = "2.prems"(1) and shape = "2.prems"(2) and inb = "2.prems"(3)
  show ?case
  proof (cases "cur \<in> set (end_positions self)")
    case True
    with run have "ex' = ex" by simp
    then show ?thesis by simp
  next
    case notend: False
    show ?thesis
    proof (cases "grid_index (grid self) cur")
      case (Inl e)
      with run notend show ?thesis by simp
    next
      case (Inr b)
      obtain i j where b: "b = (i, j)" by (cases b)
      show ?thesis
      proof (cases "visited (grid self ! i ! j)")
        case True
        with run notend Inr b have "ex' = ex" by simp
        then show ?thesis by simp
      next
        case unv: False
        define m1 where "m1 = self\<lparr>grid := (grid self)[i := (grid self ! i)
                                     [j := (grid self ! i ! j)\<lparr>visited := True\<rparr>]]\<rparr>"
        have step: "marked_run self ex m1 (ex @ [cur])"
          unfolding m1_def using Inr[unfolded b] unv notend by (rule marked_run_mark)
        note s1 = marked_run_grid_shape[OF step shape]
        show ?thesis
        proof (cases "get_available_positions T m1 cur")
          case (Inl e)
          with run notend Inr b unv show ?thesis by (simp add: m1_def Let_def)
        next
          case avail: (Inr av)
          have eq: "find_path_aux (Suc n) T self cur path ex =
                    explore n T m1 cur av (path @ [cur]) (ex @ [cur])"
            using notend Inr b unv avail by (simp add: m1_def Let_def)
          have run1: "explore n T m1 cur av (path @ [cur]) (ex @ [cur]) = Returned r m' path' ex'"
            using run eq by simp
          have "list_all (in_bounds m1) (drop (length (ex @ [cur])) ex')"
          proof (rule "2.IH"[of "(i, j)" i j m1 av])
            show "cur \<notin> set (end_positions self)" by (rule notend)
            show "grid_index (grid self) cur = Inr (i, j)" using Inr b by simp
            show "(i, j) = (i, j)" by (rule refl)
            show "\<not> visited (grid self ! i ! j)" by (rule unv)
            show "m1 = self\<lparr>grid := (grid self)[i := (grid self ! i)
                                     [j := (grid self ! i ! j)\<lparr>visited := True\<rparr>]]\<rparr>"
              by (rule m1_def)
            show "get_available_positions T m1 cur = Inr av" by (rule avail)
            show "explore n T m1 cur av (path @ [cur]) (ex @ [cur]) = Returned r m' path' ex'"
              by (rule run1)
            show "grid_shape m1" by (rule s1(1))
            show "list_all (in_bounds m1) av"
              using s1(1) avail by (rule get_available_positions_in_bounds)
          qed
          then have t: "list_all (in_bounds self) (drop (Suc (length ex)) ex')"
            by (simp add: s1(2))
          from find_path_aux_marked_run(2)[OF run1] obtain new where "ex' = (ex @ [cur]) @ new"
            unfolding marked_run_def by blast
          then have "drop (length ex) ex' = cur # drop (Suc (length ex)) ex'" by simp
          with t inb show ?thesis by simp
        qed
      qed
    qed
  qed
next
  case (3 n T self cur path ex)
  then have "ex' = ex" by (auto split: if_splits)
  then show ?case by simp
next
  case (4 n T self cur nxt rest path ex)
  note run = "4.prems"(1) and shape = "4.prems"(2) and inb = "4.prems"(3)
  show ?case
  proof (cases "find_path_aux n T self nxt path ex")
    case OutOfFuel
    with run show ?thesis by simp
  next
    case (Raised e)
    with run show ?thesis by simp
  next
    case (Returned r1 m1 p1 e1)
    have a: "list_all (in_bounds self) (drop (length ex) e1)"
      using Returned shape inb by (intro "4.IH"(1)) simp_all
    note mr = find_path_aux_marked_run(1)[OF Returned]
    note s1 = marked_run_grid_shape[OF mr shape]
    from mr obtain n1 where n1: "e1 = ex @ n1" unfolding marked_run_def by blast
    show ?thesis
    proof (cases r1)
      case None
      with Returned run have run2: "explore n T m1 cur rest p1 e1 = Returned r m' path' ex'" by simp
      have "list_all (in_bounds m1) (drop (length e1) ex')"
        using Returned None run2 s1 inb by (intro "4.IH"(2)) simp_all
      then have b: "list_all (in_bounds self) (drop (length e1) ex')" by (simp add: s1(2))
      from find_path_aux_marked_run(2)[OF run2] obtain n2 where "ex' = e1 @ n2"
        unfolding marked_run_def by blast
      with n1 have "drop (length ex) ex' = drop (length ex) e1 @ drop (length e1) ex'" by simp
      with a b show ?thesis by simp
    next
      case (Some res)
      with Returned run have "ex' = e1" by simp
      with a show ?thesis by simp
    qed
  qed
qed

lemma path_hollows_inv_update:
  assumes "path_hollows_inv st path" "hollow_inv h'"
  shows "path_hollows_inv (st(r := h')) path"
  using assms unfolding path_hollows_inv_def list_all_iff
  by (auto split: tile.splits)

lemma path_hollows_inv_mono:
  assumes "path_hollows_inv st path" "\<forall>q. hollow_inv (st q) \<longrightarrow> hollow_inv (st' q)"
  shows "path_hollows_inv st' path"
  using assms unfolding path_hollows_inv_def list_all_iff
  by (auto split: tile.splits)

lemma take_treasures_loop_walk:
  assumes "path_hollows_inv st path"
  shows "\<exists>ts st'. take_treasures_loop st path cap acc = Inr (acc @ ts, st') \<and>
           path_treasure_walk st path cap = Inr (ts, st') \<and>
           (\<forall>q. hollow_inv (st q) \<longrightarrow> hollow_inv (st' q)) \<and>
           (ts \<noteq> [] \<longrightarrow> sum_list (map weight ts) \<le> cap)"
  using assms
proof (induction path arbitrary: st cap acc)
  case Nil
  then show ?case by simp
next
  case (Cons cell path)
  from Cons.prems have rest: "path_hollows_inv st path"
    by (simp add: path_hollows_inv_def)
  show ?case
  proof (cases "tile cell")
    case (Tile_str s)
    from Cons.IH[OF rest, of cap acc] obtain ts st' where
      r: "take_treasures_loop st path cap acc = Inr (acc @ ts, st')"
      "path_treasure_walk st path cap = Inr (ts, st')"
      "\<forall>q. hollow_inv (st q) \<longrightarrow> hollow_inv (st' q)"
      "ts \<noteq> [] \<longrightarrow> sum_list (map weight ts) \<le> cap" by blast
    with Tile_str show ?thesis by simp
  next
    case (Tile_hollow r)
    with Cons.prems have "hollow_inv (st r)" by (simp add: path_hollows_inv_def)
    from get_optimal_treasure_result[OF this, of cap] obtain res h' where
      g: "get_optimal_treasure (st r) cap = Inr (res, h')" and hi: "hollow_inv h'"
      and c: "case res of
        Some t \<Rightarrow> weight t \<le> cap \<and> Suc (hollow_len h') = hollow_len (st r)
      | None \<Rightarrow> hollow_len h' = hollow_len (st r) \<and> hollow_treasures h' = hollow_treasures (st r) \<and>
                hollow_entries h' = hollow_entries (st r)" by blast
    let ?st = "st(r := h')"
    have rest': "path_hollows_inv ?st path" using rest hi by (rule path_hollows_inv_update)
    have pres: "\<forall>q. hollow_inv (st q) \<longrightarrow> hollow_inv (?st q)" using hi by simp
    show ?thesis
    proof (cases res)
      case None
      from Cons.IH[OF rest', of cap acc] obtain ts st' where
        r: "take_treasures_loop ?st path cap acc = Inr (acc @ ts, st')"
        "path_treasure_walk ?st path cap = Inr (ts, st')"
        "\<forall>q. hollow_inv (?st q) \<longrightarrow> hollow_inv (st' q)"
        "ts \<noteq> [] \<longrightarrow> sum_list (map weight ts) \<le> cap" by blast
      have "take_treasures_loop st (cell # path) cap acc = Inr (acc @ ts, st')"
        using Tile_hollow g None r(1) by simp
      moreover have "path_treasure_walk st (cell # path) cap = Inr (ts, st')"
        using Tile_hollow g None r(2) by simp
      moreover have "\<forall>q. hollow_inv (st q) \<longrightarrow> hollow_inv (st' q)" using pres r(3) by blast
      ultimately show ?thesis using r(4) by blast
    next
      case (Some t)
      with c have fit: "weight t \<le> cap" by simp
      from Cons.IH[OF rest', of "cap - weight t" "acc @ [t]"] obtain ts st' where
        r: "take_treasures_loop ?st path (cap - weight t) (acc @ [t]) = Inr ((acc @ [t]) @ ts, st')"
        "path_treasure_walk ?st path (cap - weight t) = Inr (ts, st')"
        "\<forall>q. hollow_inv (?st q) \<longrightarrow> hollow_inv (st' q)"
        "ts \<noteq> [] \<longrightarrow> sum_list (map weight ts) \<le> cap - weight t" by blast
      have "take_treasures_loop st (cell # path) cap acc = Inr (acc @ (t # ts), st')"
        using Tile_hollow g Some fit r(1) by simp
      moreover have "path_treasure_walk st (cell # path) cap = Inr (t # ts, st')"
        using Tile_hollow g Some r(2) by simp
      moreover have "\<forall>q. hollow_inv (st q) \<longrightarrow> hollow_inv (st' q)" using pres r(3) by blast
      moreover have "sum_list (map weight (t # ts)) \<le> cap"
        using fit r(4) by (cases "ts = []") auto
      ultimately show ?thesis by blast
    qed
  qed
qed

lemma get_available_positions_shape:
  assumes "grid_shape m"
  shows "\<exists>av. get_available_positions T m p = Inr av \<and> list_all (in_bounds m) av"
proof -
  have "get_available_positions T m p = available_from T m p directions"
    by (simp add: get_available_positions_def)
  with available_from_shape[OF assms, of T p directions] show ?thesis
    by (auto simp: list_all_iff)
qed

lemma find_path_aux_returns:
  "grid_shape m \<Longrightarrow> in_bounds m cur \<Longrightarrow> unvisited_count (grid m) < n \<Longrightarrow>
   \<exists>r m' path' ex'. find_path_aux n T m cur path ex = Returned r m' path' ex' \<and>
      (r = None \<longrightarrow> mset path' = mset path)"
  "grid_shape m \<Longrightarrow> list_all (in_bounds m) avail \<Longrightarrow> cur \<in> set path \<Longrightarrow>
   unvisited_count (grid m) < n \<Longrightarrow>
   \<exists>r m' path' ex'. explore n T m cur avail path ex = Returned r m' path' ex' \<and>
      (r = None \<longrightarrow> add_mset cur (mset path') = mset path)"
proof (induction n T m cur path ex and n T m cur avail path ex
    rule: find_path_aux_explore.induct)
  case (1 T self cur path ex)
  then show ?case by simp
next
  case (2 n T self cur path ex)
  note shape = "2.prems"(1) and inb = "2.prems"(2) and fuel = "2.prems"(3)
  show ?case
  proof (cases "cur \<in> set (end_positions self)")
    case True
    then show ?thesis by simp
  next
    case notend: False
    define i j where "i = nat (row cur)" and "j = nat (col cur)"
    have gi: "grid_index (grid self) cur = Inr (i, j)"
      unfolding i_def j_def using shape inb by (rule grid_index_in_bounds)
    from grid_index_range[OF gi] have rg: "i < length (grid self)" "j < length (grid self ! i)"
      by simp_all
    show ?thesis
    proof (cases "visited (grid self ! i ! j)")
      case True
      with notend gi show ?thesis by simp
    next
      case unv: False
      define m1 where "m1 = self\<lparr>grid := (grid self)[i := (grid self ! i)
                                     [j := (grid self ! i ! j)\<lparr>visited := True\<rparr>]]\<rparr>"
      have step: "marked_run self ex m1 (ex @ [cur])"
        unfolding m1_def using gi unv notend by (rule marked_run_mark)
      note s1 = marked_run_grid_shape[OF step shape]
      have cnt: "Suc (unvisited_count (grid m1)) = unvisited_count (grid self)"
        unfolding m1_def using unvisited_count_mark[OF rg unv] by simp
      from get_available_positions_shape[OF s1(1), of T cur] obtain av where
        av: "get_available_positions T m1 cur = Inr av" "list_all (in_bounds m1) av" by blast
      have eq: "find_path_aux (Suc n) T self cur path ex =
                explore n T m1 cur av (path @ [cur]) (ex @ [cur])"
        using notend gi unv av(1) by (simp add: m1_def Let_def)
      have "\<exists>r m' path' ex'. explore n T m1 cur av (path @ [cur]) (ex @ [cur]) = Returned r m' path' ex' \<and>
              (r = None \<longrightarrow> add_mset cur (mset path') = mset (path @ [cur]))"
      proof (rule "2.IH"[of "(i, j)" i j m1 av])
        show "cur \<notin> set (end_positions self)" by (rule notend)
        show "grid_index (grid self) cur = Inr (i, j)" by (rule gi)
        show "(i, j) = (i, j)" by (rule refl)
        show "\<not> visited (grid self ! i ! j)" by (rule unv)
        show "m1 = self\<lparr>grid := (grid self)[i := (grid self ! i)
                                     [j := (grid self ! i ! j)\<lparr>visited := True\<rparr>]]\<rparr>"
          by (rule m1_def)
        show "get_available_positions T m1 cur = Inr av" by (rule av(1))
        show "grid_shape m1" by (rule s1(1))
        show "list_all (in_bounds m1) av" by (rule av(2))
        show "cur \<in> set (path @ [cur])" by simp
        show "unvisited_count (grid m1) < n" using cnt fuel by simp
      qed
      then show ?thesis unfolding eq by auto
    qed
  qed
next
  case (3 n T self cur path ex)
  then show ?case by simp
next
  case (4 n T self cur nxt rest path ex)
  note shape = "4.prems"(1) and inb = "4.prems"(2) and mem = "4.prems"(3) and fuel = "4.prems"(4)
  have "in_bounds self nxt" using inb by simp
  from "4.IH"(1)[OF shape this fuel] obtain r1 m1 p1 e1 where
    r1: "find_path_aux n T self nxt path ex = Returned r1 m1 p1 e1"
    "r1 = None \<longrightarrow> mset p1 = mset path" by blast
  show ?case
  proof (cases r1)
    case (Some res)
    with r1(1) show ?thesis by simp
  next
    case None
    note mr = find_path_aux_marked_run(1)[OF r1(1)]
    note s1 = marked_run_grid_shape[OF mr shape]
    have le: "unvisited_count (grid m1) \<le> unvisited_count (grid self)"
      using find_path_aux_fuel(1)[of self n T nxt path ex] r1(1) by simp
    from r1(2) None mem have mem1: "cur \<in> set p1" by (metis set_mset_mset)
    have "\<exists>r m' path' ex'. explore n T m1 cur rest p1 e1 = Returned r m' path' ex' \<and>
            (r = None \<longrightarrow> add_mset cur (mset path') = mset p1)"
    proof (rule "4.IH"(2)[OF r1(1) None])
      show "grid_shape m1" by (rule s1(1))
      show "list_all (in_bounds m1) rest" using inb by (simp add: s1(2))
      show "cur \<in> set p1" by (rule mem1)
      show "unvisited_count (grid m1) < n" using le fuel by simp
    qed
    moreover have "explore n T self cur (nxt # rest) path ex = explore n T m1 cur rest p1 e1"
      using r1(1) None by simp
    ultimately show ?thesis using r1(2) None by auto
  qed
qed

lemma find_way_out_returns:
  assumes "grid_shape self" "in_bounds self (start_position self)"
  shows "\<exists>r self' path' ex'. find_way_out T self = Returned r self' path' ex'"
proof -
  have "unvisited_count (grid self) < Suc (length (concat (grid self)))"
    using unvisited_count_le[of "grid self"] by simp
  from find_path_aux_returns(1)[OF assms this, of T "[]" "[]"] show ?thesis
    unfolding find_way_out_def by blast
qed

lemma grid_modify_shape:
  assumes "grid_modify g p f = Inr g'"
  shows "map length g' = map length g"
proof -
  from assms obtain i j where ij: "grid_index g p = Inr (i, j)"
    and g': "g' = g[i := (g ! i)[j := f (g ! i ! j)]]"
    by (auto simp: grid_modify_def split: sum.splits)
  from grid_index_range[OF ij] have "i < length g" by simp
  then show ?thesis unfolding g' by (simp add: map_update list_update_same_conv)
qed

lemma set_tiles_shape: "set_tiles g ps = Inr g' \<Longrightarrow> map length g' = map length g"
proof (induction ps arbitrary: g)
  case Nil
  then show ?case by simp
next
  case (Cons tp ps)
  obtain t p where tp: "tp = (t, p)" by (cases tp)
  from Cons.prems tp obtain g1 where g1: "grid_modify g p (\<lambda>c. c\<lparr>tile := t\<rparr>) = Inr g1"
    "set_tiles g1 ps = Inr g'" by (auto split: sum.splits)
  from grid_modify_shape[OF g1(1)] Cons.IH[OF g1(2)] show ?case by simp
qed

lemma new_Maze_grid_shape:
  assumes "new_Maze T start ends walls hollows nrows ncols = Inr m"
  shows "grid_shape m"
proof -
  let ?g0 = "map (\<lambda>i. map (\<lambda>j. \<lparr>tile = Tile_str (CHR '' ''),
                                     position = \<lparr>row = int i, col = int j\<rparr>,
                                     visited = False\<rparr>) [0..<nat ncols]) [0..<nat nrows]"
  from assms have cg: "create_grid T start nrows ncols walls hollows ends = Inr (grid m)"
    and rc: "rows m = nrows" "cols m = ncols"
    unfolding new_Maze_def by (auto split: sum.splits)
  from cg obtain i j g2 g3 where
    ij: "grid_index ?g0 start = Inr (i, j)"
    and g2: "set_tiles (?g0[i := (?g0 ! i)[j := \<lparr>tile = Tile_str (START_POSITION T),
                                              position = start, visited = False\<rparr>]])
                (map (\<lambda>p. (Tile_str (WALL T), p)) walls) = Inr g2"
    and g3: "set_tiles g2 (map (\<lambda>(h, p). (Tile_hollow h, p)) hollows) = Inr g3"
    and g: "set_tiles g3 (map (\<lambda>p. (Tile_str (EXIT T), p)) ends) = Inr (grid m)"
    unfolding create_grid_def Let_def by (auto split: sum.splits)
  from grid_index_range[OF ij] have "i < length ?g0" by blast
  then have "map length (?g0[i := (?g0 ! i)[j := \<lparr>tile = Tile_str (START_POSITION T),
                                              position = start, visited = False\<rparr>]]) = map length ?g0"
    by (simp add: map_update list_update_same_conv)
  with set_tiles_shape[OF g2] set_tiles_shape[OF g3] set_tiles_shape[OF g]
  have "map length (grid m) = map length ?g0" by simp
  also have "\<dots> = replicate (nat nrows) (nat ncols)"
    by (simp add: map_replicate_const comp_def)
  finally have s: "map length (grid m) = replicate (nat nrows) (nat ncols)" .
  then have "length (grid m) = nat nrows" by (metis length_map length_replicate)
  moreover have "\<forall>r \<in> set (grid m). length r = nat ncols"
  proof
    fix r assume "r \<in> set (grid m)"
    then have "length r \<in> set (map length (grid m))" by simp
    then show "length r = nat ncols" unfolding s by simp
  qed
  ultimately show ?thesis using rc by (simp add: grid_shape_def list_all_iff)
qed

section \<open>Loading\<close>

lemma new_SpookyHollow_is_spooky: "new_SpookyHollow ts = Inr h \<Longrightarrow> \<exists>t. h = SpookyHollow t"
  by (auto simp: new_SpookyHollow_def map_sum_def split: sum.splits)

lemma new_MysticalHollow_is_mystical: "new_MysticalHollow ts = Inr h \<Longrightarrow> \<exists>t. h = MysticalHollow t"
  by (auto simp: new_MysticalHollow_def map_sum_def split: sum.splits)

lemma scan_tiles_inv:
  "scan_tiles T gen i j ts s = Inr s' \<Longrightarrow> loading_inv mh s \<Longrightarrow> loading_inv mh s'"
proof (induction T gen i j ts s arbitrary: s' rule: scan_tiles.induct)
  case (1 T gen i j s)
  then show ?case by simp
next
  case (2 T gen i j t ts s)
  define p where "p = \<lparr>row = int i, col = int j\<rparr>"
  note inv = "2.prems"(2)
  consider (start) "t = START_POSITION T"
    | (exit) "t \<noteq> START_POSITION T" "t = EXIT T"
    | (wall) "t \<noteq> START_POSITION T" "t \<noteq> EXIT T" "t = WALL T"
    | (spooky) "t \<noteq> START_POSITION T" "t \<noteq> EXIT T" "t \<noteq> WALL T" "t = SPOOKY_HOLLOW T"
    | (mystical) "t \<noteq> START_POSITION T" "t \<noteq> EXIT T" "t \<noteq> WALL T" "t \<noteq> SPOOKY_HOLLOW T"
        "t = MYSTICAL_HOLLOW T"
    | (other) "t \<noteq> START_POSITION T" "t \<noteq> EXIT T" "t \<noteq> WALL T" "t \<noteq> SPOOKY_HOLLOW T"
        "t \<noteq> MYSTICAL_HOLLOW T"
    by blast
  then show ?case
  proof cases
    case start
    have inv1: "loading_inv mh (s\<lparr>l_start := Some p\<rparr>)" using inv by (simp add: loading_inv_def)
    have run: "scan_tiles T gen i (Suc j) ts (s\<lparr>l_start := Some p\<rparr>) = Inr s'"
      using "2.prems"(1) start by (simp add: p_def)
    show ?thesis by (rule "2.IH"(1)[OF p_def start run inv1])
  next
    case exit
    have inv1: "loading_inv mh (s\<lparr>l_ends := l_ends s @ [p]\<rparr>)" using inv by (simp add: loading_inv_def)
    have run: "scan_tiles T gen i (Suc j) ts (s\<lparr>l_ends := l_ends s @ [p]\<rparr>) = Inr s'"
      using "2.prems"(1) exit by (simp add: p_def)
    show ?thesis by (rule "2.IH"(2)[OF p_def exit run inv1])
  next
    case wall
    have inv1: "loading_inv mh (s\<lparr>l_walls := l_walls s @ [p]\<rparr>)" using inv by (simp add: loading_inv_def)
    have run: "scan_tiles T gen i (Suc j) ts (s\<lparr>l_walls := l_walls s @ [p]\<rparr>) = Inr s'"
      using "2.prems"(1) wall by (simp add: p_def)
    show ?thesis by (rule "2.IH"(3)[OF p_def wall run inv1])
  next
    case spooky
    from "2.prems"(1) spooky obtain h where h: "new_SpookyHollow (gen (l_count s)) = Inr h"
      by (auto simp: Let_def split: sum.splits)
    let ?s = "s\<lparr>l_hollows := l_hollows s @ [(l_count s, p)],
                  l_store := (l_store s)(l_count s := h),
                  l_count := Suc (l_count s)\<rparr>"
    have run: "scan_tiles T gen i (Suc j) ts ?s = Inr s'"
      using "2.prems"(1) spooky h by (simp add: p_def)
    from new_SpookyHollow_is_spooky[OF h] obtain t' where t': "h = SpookyHollow t'" by blast
    have fresh: "l_count s \<notin> set (map fst (l_hollows s))"
      using inv by (auto simp: loading_inv_def)
    have inv1: "loading_inv mh ?s"
      unfolding loading_inv_def
    proof (intro conjI allI impI ballI)
      show "1 \<le> l_count ?s" by simp
      show "l_store ?s 0 = mh" using inv by (auto simp: loading_inv_def)
      show "x < l_count ?s" if "x \<in> fst ` set (l_hollows ?s)" for x
        using that inv by (auto simp: loading_inv_def less_Suc_eq)
      show "\<exists>t. l_store ?s x = SpookyHollow t" if "1 \<le> x \<and> x < l_count ?s" for x
        using that inv t' by (auto simp: loading_inv_def less_Suc_eq)
      show "count_list (map fst (l_hollows ?s)) x \<le> 1" if "1 \<le> x" for x
      proof (cases "x = l_count s")
        case True
        with count_notin[OF fresh] show ?thesis by simp
      next
        case False
        with that inv show ?thesis by (simp add: loading_inv_def)
      qed
    qed
    then show ?thesis by (rule "2.IH"(4)[OF p_def spooky h run])
  next
    case mystical
    have inv1: "loading_inv mh (s\<lparr>l_hollows := l_hollows s @ [(0, p)]\<rparr>)"
      using inv by (auto simp: loading_inv_def)
    have run: "scan_tiles T gen i (Suc j) ts (s\<lparr>l_hollows := l_hollows s @ [(0, p)]\<rparr>) = Inr s'"
      using "2.prems"(1) mystical by (simp add: p_def)
    show ?thesis by (rule "2.IH"(5)[OF p_def mystical run inv1])
  next
    case other
    have run: "scan_tiles T gen i (Suc j) ts s = Inr s'"
      using "2.prems"(1) other by (simp add: p_def)
    show ?thesis by (rule "2.IH"(6)[OF p_def other run inv])
  qed
qed

lemma scan_lines_inv:
  "scan_lines T gen i lines s = Inr s' \<Longrightarrow> loading_inv mh s \<Longrightarrow> loading_inv mh s'"
proof (induction lines arbitrary: i s)
  case Nil
  then show ?case by simp
next
  case (Cons line lines)
  from Cons.prems(1) obtain s1 where s1: "scan_tiles T gen i 0 (strip line) s = Inr s1"
    "scan_lines T gen (Suc i) lines s1 = Inr s'" by (auto split: sum.splits)
  from scan_tiles_inv[OF s1(1) Cons.prems(2)] have "loading_inv mh s1" .
  with s1(2) show ?case by (rule Cons.IH)
qed

lemma hollow_count_replace:
  assumes "i < length g" "j < length (g ! i)"
  shows "hollow_count r (g[i := (g ! i)[j := c]]) \<le>
         hollow_count r g + (if tile c = Tile_hollow r then 1 else 0)"
proof -
  let ?P = "\<lambda>c. tile c = Tile_hollow r"
  have a: "length (filter ?P ((g ! i)[j := c])) + (if ?P (g ! i ! j) then 1 else 0) =
        length (filter ?P (g ! i)) + (if ?P c then 1 else 0)"
    using assms(2) by (rule length_filter_update)
  have b: "length (filter ?P (concat (g[i := (g ! i)[j := c]]))) + length (filter ?P (g ! i)) =
        length (filter ?P (concat g)) + length (filter ?P ((g ! i)[j := c]))"
    using assms(1) by (rule length_filter_concat_update)
  from a b show ?thesis unfolding hollow_count_def by (simp split: if_splits)
qed

lemma grid_modify_count:
  assumes "grid_modify g p (\<lambda>c. c\<lparr>tile := t\<rparr>) = Inr g'"
  shows "hollow_count r g' \<le> hollow_count r g + (if t = Tile_hollow r then 1 else 0)"
proof -
  from assms obtain i j where ij: "grid_index g p = Inr (i, j)"
    and g': "g' = g[i := (g ! i)[j := (g ! i ! j)\<lparr>tile := t\<rparr>]]"
    by (auto simp: grid_modify_def split: sum.splits)
  from grid_index_range[OF ij] have "i < length g" "j < length (g ! i)" by simp_all
  from hollow_count_replace[OF this, of r "(g ! i ! j)\<lparr>tile := t\<rparr>"] show ?thesis
    unfolding g' by simp
qed

lemma set_tiles_count:
  "set_tiles g ps = Inr g' \<Longrightarrow>
   hollow_count r g' \<le> hollow_count r g + count_list (map fst ps) (Tile_hollow r)"
proof (induction ps arbitrary: g)
  case Nil
  then show ?case by simp
next
  case (Cons tp ps)
  obtain t p where tp: "tp = (t, p)" by (cases tp)
  from Cons.prems tp obtain g1 where g1: "grid_modify g p (\<lambda>c. c\<lparr>tile := t\<rparr>) = Inr g1"
    "set_tiles g1 ps = Inr g'" by (auto split: sum.splits)
  from grid_modify_count[OF g1(1), of r] Cons.IH[OF g1(2)] tp show ?case
    by (auto split: if_splits)
qed

lemma hollow_count_empty_grid:
  "hollow_count r (map (\<lambda>i. map (\<lambda>j. \<lparr>tile = Tile_str c, position = f i j, visited = False\<rparr>) js) is) = 0"
  by (induction "is") (simp_all add: hollow_count_def)

lemma create_grid_count:
  assumes "create_grid T start nrows ncols walls hollows ends = Inr g"
  shows "hollow_count r g \<le> count_list (map fst hollows) r"
proof -
  let ?g0 = "map (\<lambda>i. map (\<lambda>j. \<lparr>tile = Tile_str (CHR '' ''),
                                     position = \<lparr>row = int i, col = int j\<rparr>,
                                     visited = False\<rparr>) [0..<nat ncols]) [0..<nat nrows]"
  from assms obtain i j g2 g3 where
    ij: "grid_index ?g0 start = Inr (i, j)"
    and g2: "set_tiles (?g0[i := (?g0 ! i)[j := \<lparr>tile = Tile_str (START_POSITION T),
                                              position = start, visited = False\<rparr>]])
                (map (\<lambda>p. (Tile_str (WALL T), p)) walls) = Inr g2"
    and g3: "set_tiles g2 (map (\<lambda>(h, p). (Tile_hollow h, p)) hollows) = Inr g3"
    and g: "set_tiles g3 (map (\<lambda>p. (Tile_str (EXIT T), p)) ends) = Inr g"
    unfolding create_grid_def Let_def by (auto split: sum.splits)
  let ?g1 = "?g0[i := (?g0 ! i)[j := \<lparr>tile = Tile_str (START_POSITION T),
                                              position = start, visited = False\<rparr>]]"
  from grid_index_range[OF ij] have rg: "i < length ?g0" "j < length (?g0 ! i)" by blast+
  have c0: "hollow_count r ?g0 = 0" by (rule hollow_count_empty_grid)
  have c1: "hollow_count r ?g1 = 0"
    using hollow_count_replace[OF rg, of r "\<lparr>tile = Tile_str (START_POSITION T),
                                              position = start, visited = False\<rparr>"] c0 by simp
  have w: "count_list (map fst (map (\<lambda>p. (Tile_str (WALL T), p)) walls)) (Tile_hollow r) = 0"
    by (intro count_notin) auto
  have e: "count_list (map fst (map (\<lambda>p. (Tile_str (EXIT T), p)) ends)) (Tile_hollow r) = 0"
    by (intro count_notin) auto
  have h: "count_list (map fst (map (\<lambda>(h, p). (Tile_hollow h, p)) hollows)) (Tile_hollow r) =
           count_list (map fst hollows) r"
  proof -
    have "map fst (map (\<lambda>(h, p). (Tile_hollow h, p)) hollows) = map Tile_hollow (map fst hollows)"
      by (induction hollows) auto
    moreover have "inj Tile_hollow" by (simp add: inj_def)
    ultimately show ?thesis by (simp only: count_list_map_conv)
  qed
  from set_tiles_count[OF g2, of r] c1 w have c2: "hollow_count r g2 = 0" by simp
  from set_tiles_count[OF g3, of r] c2 h have c3: "hollow_count r g3 \<le> count_list (map fst hollows) r"
    by simp
  from set_tiles_count[OF g, of r] c3 e show ?thesis by simp
qed

lemma load_maze_from_file_parts:
  assumes "load_maze_from_file T gen lines = Inr (maze, st)"
  shows "\<exists>mh s start first_line.
           new_MysticalHollow (gen 0) = Inr mh \<and>
           scan_lines T gen 0 lines
              \<lparr>l_start = None, l_ends = [], l_walls = [], l_hollows = [],
               l_store = (\<lambda>r. mh), l_count = 1\<rparr> = Inr s \<and>
           st = l_store s \<and>
           create_grid T start (int (length lines)) (int (length (strip first_line)))
              (l_walls s) (l_hollows s) (l_ends s) = Inr (grid maze)"
proof -
  from assms obtain mh where mh: "new_MysticalHollow (gen 0) = Inr mh"
    unfolding load_maze_from_file_def by (auto split: sum.splits)
  from assms mh obtain first_line where fl: "py_get lines 0 = Inr first_line"
    unfolding load_maze_from_file_def by (auto split: sum.splits)
  from assms mh fl obtain s where s: "scan_lines T gen 0 lines
              \<lparr>l_start = None, l_ends = [], l_walls = [], l_hollows = [],
               l_store = (\<lambda>r. mh), l_count = 1\<rparr> = Inr s"
    unfolding load_maze_from_file_def by (auto split: sum.splits)
  from assms mh fl s obtain start where st: "l_start s = Some start"
    unfolding load_maze_from_file_def by (auto split: sum.splits option.splits)
  from assms mh fl s st have m: "new_Maze T start (l_ends s) (l_walls s) (l_hollows s)
        (int (length lines)) (int (length (strip first_line))) = Inr maze" and e: "st = l_store s"
    unfolding load_maze_from_file_def by (auto split: sum.splits)
  from m have "create_grid T start (int (length lines)) (int (length (strip first_line)))
              (l_walls s) (l_hollows s) (l_ends s) = Inr (grid maze)"
    unfolding new_Maze_def by (auto split: sum.splits)
  with mh s e show ?thesis by blast
qed

section \<open>Properties of the tree-backed hollow and of the balanced build\<close>

text \<open>
  C2, at the input where the code departs from it. A SpookyHollow is built from the
  treasures (value 10, weight 5) and (value 4, weight 2): both keys are \<open>-2\<close>, the
  root holds the first treasure and its right child the second.
  \<^verbatim>\<open>get_optimal_treasure(2)\<close> walks in order, skips the root (weight 5) and returns the
  second treasure (weight 2); \<^verbatim>\<open>del self.treasures[node.key]\<close> then deletes by key
  and removes the root: the treasure that was returned is still in the tree, and the
  treasure that was not returned is gone.
\<close>

theorem spooky_get_optimal_treasure_deletes_by_key:
  "new_SpookyHollow [\<lparr>tvalue = 10, weight = 5\<rparr>, \<lparr>tvalue = 4, weight = 2\<rparr>] =
     Inr (SpookyHollow (Node Leaf (- 2) \<lparr>tvalue = 10, weight = 5\<rparr>
                          (Node Leaf (- 2) \<lparr>tvalue = 4, weight = 2\<rparr> Leaf))) \<and>
   get_optimal_treasure
     (SpookyHollow (Node Leaf (- 2) \<lparr>tvalue = 10, weight = 5\<rparr>
                      (Node Leaf (- 2) \<lparr>tvalue = 4, weight = 2\<rparr> Leaf))) 2 =
     Inr (Some \<lparr>tvalue = 4, weight = 2\<rparr>,
          SpookyHollow (Node Leaf (- 2) \<lparr>tvalue = 4, weight = 2\<rparr> Leaf))"
proof
  show "new_SpookyHollow [\<lparr>tvalue = 10, weight = 5\<rparr>, \<lparr>tvalue = 4, weight = 2\<rparr>] =
     Inr (SpookyHollow (Node Leaf (- 2) \<lparr>tvalue = 10, weight = 5\<rparr>
                          (Node Leaf (- 2) \<lparr>tvalue = 4, weight = 2\<rparr> Leaf)))"
    by code_simp
  show "get_optimal_treasure
     (SpookyHollow (Node Leaf (- 2) \<lparr>tvalue = 10, weight = 5\<rparr>
                      (Node Leaf (- 2) \<lparr>tvalue = 4, weight = 2\<rparr> Leaf))) 2 =
     Inr (Some \<lparr>tvalue = 4, weight = 2\<rparr>,
          SpookyHollow (Node Leaf (- 2) \<lparr>tvalue = 4, weight = 2\<rparr> Leaf))"
    by (simp add: spooky_get_optimal_treasure_def)
qed



text \<open>
  C5: \<^verbatim>\<open>build_tree_aux\<close> leaves the tree as it is when \<open>start > end\<close>; on a
  sub-range \<open>[start, end]\<close> of the list it inserts the element at index
  \<open>(start + end) div 2\<close> by ordinary insert, then builds \<open>[start, mid - 1]\<close> and then
  \<open>[mid + 1, end]\<close>; the tree built from a list of \<open>n\<close> entries holds exactly those
  \<open>n\<close> key/item pairs.
\<close>

theorem build_tree_aux_inserts_midpoints:
  "(endi < start \<longrightarrow> build_tree_aux self xs start endi = Inr self) \<and>
   (0 \<le> start \<and> start \<le> endi \<and> endi < int (length xs) \<longrightarrow>
      build_tree_aux self xs start endi =
        (case build_tree_aux
                (insert_aux self (fst (xs ! nat ((start + endi) div 2)))
                                 (snd (xs ! nat ((start + endi) div 2))))
                xs start ((start + endi) div 2 - 1) of
           Inl e \<Rightarrow> Inl e
         | Inr self' \<Rightarrow> build_tree_aux self' xs ((start + endi) div 2 + 1) endi)) \<and>
   (\<exists>tree. build_balanced_tree xs = Inr tree \<and> mset (inorder tree) = mset xs \<and>
           bst_len tree = length xs)"
proof (intro conjI impI)
  assume "endi < start"
  then show "build_tree_aux self xs start endi = Inr self" by (rule build_tree_aux_noop)
next
  assume "0 \<le> start \<and> start \<le> endi \<and> endi < int (length xs)"
  then show "build_tree_aux self xs start endi =
        (case build_tree_aux
                (insert_aux self (fst (xs ! nat ((start + endi) div 2)))
                                 (snd (xs ! nat ((start + endi) div 2))))
                xs start ((start + endi) div 2 - 1) of
           Inl e \<Rightarrow> Inl e
         | Inr self' \<Rightarrow> build_tree_aux self' xs ((start + endi) div 2 + 1) endi)"
    by (intro build_tree_aux_step) simp_all
next
  obtain tree where t: "build_balanced_tree xs = Inr tree" "mset (inorder tree) = mset xs"
    using build_balanced_tree_inorder[of xs] by blast
  from t(2) have "length (inorder tree) = length xs" by (rule mset_eq_length)
  with t show "\<exists>tree. build_balanced_tree xs = Inr tree \<and> mset (inorder tree) = mset xs \<and>
           bst_len tree = length xs"
    by (simp add: bst_len_inorder)
qed

theorem build_tree_aux_inserts_midpoints_witness:
  "build_tree_aux Leaf [(1::int, ''a''), (2, ''b''), (3, ''c'')] 1 0 = Inr Leaf \<and>
   build_tree_aux Leaf [(1::int, ''a''), (2, ''b''), (3, ''c'')] 0 2 =
     Inr (Node (Node Leaf 1 ''a'' Leaf) 2 ''b'' (Node Leaf 3 ''c'' Leaf)) \<and>
   (\<exists>tree. build_balanced_tree [(1::int, ''a''), (2, ''b''), (3, ''c'')] = Inr tree \<and>
           mset (inorder tree) = mset [(1::int, ''a''), (2, ''b''), (3, ''c'')] \<and>
           bst_len tree = length [(1::int, ''a''), (2, ''b''), (3, ''c'')])"
proof -
  let ?xs = "[(1::int, ''a''), (2, ''b''), (3, ''c'')]"
  note noop = build_tree_aux_inserts_midpoints[of 0 1 Leaf ?xs]
  note step = build_tree_aux_inserts_midpoints[of 2 0 Leaf ?xs]
  have a: "build_tree_aux Leaf ?xs 1 0 = Inr Leaf" using noop by simp
  have "build_tree_aux Leaf ?xs 0 2 =
        (case build_tree_aux
                (insert_aux Leaf (fst (?xs ! nat ((0 + 2) div 2))) (snd (?xs ! nat ((0 + 2) div 2))))
                ?xs 0 ((0 + 2) div 2 - 1) of
           Inl e \<Rightarrow> Inl e
         | Inr self' \<Rightarrow> build_tree_aux self' ?xs ((0 + 2) div 2 + 1) 2)"
    by (rule step[THEN conjunct2, THEN conjunct1, THEN mp]) simp
  also have "\<dots> = Inr (Node (Node Leaf 1 ''a'' Leaf) 2 ''b'' (Node Leaf 3 ''c'' Leaf))"
    by (simp add: build_tree_aux.simps py_get_def)
  finally have b: "build_tree_aux Leaf ?xs 0 2 =
     Inr (Node (Node Leaf 1 ''a'' Leaf) 2 ''b'' (Node Leaf 3 ''c'' Leaf))" .
  from a b step show ?thesis by blast
qed

section \<open>Properties of get_optimal_treasure on both hollows\<close>

text \<open>
  C1: for every hollow that satisfies its invariant (a search tree for a SpookyHollow, a
  max-heap for a MysticalHollow) and every capacity, \<^verbatim>\<open>get_optimal_treasure\<close> returns
  without raising and keeps the invariant; when it returns a treasure, the treasure fits and
  the size of the collection has gone down by exactly one; when it returns None, the
  size, the multiset of entries and the multiset of treasures are unchanged.
\<close>

theorem get_optimal_treasure_size:
  assumes "hollow_inv h"
  shows "\<exists>res h'. get_optimal_treasure h cap = Inr (res, h') \<and> hollow_inv h' \<and>
     (case res of
        Some t \<Rightarrow> weight t \<le> cap \<and> Suc (hollow_len h') = hollow_len h
      | None \<Rightarrow> hollow_len h' = hollow_len h \<and> hollow_treasures h' = hollow_treasures h \<and>
                hollow_entries h' = hollow_entries h)"
  using assms by (rule get_optimal_treasure_result)

theorem get_optimal_treasure_size_witness:
  "\<exists>res h'. get_optimal_treasure
       (SpookyHollow (Node Leaf (- 2) \<lparr>tvalue = 10, weight = 5\<rparr> (Node Leaf (- 1) \<lparr>tvalue = 2, weight = 2\<rparr> Leaf))) 3
       = Inr (res, h') \<and> hollow_inv h' \<and>
     (case res of
        Some t \<Rightarrow> weight t \<le> 3 \<and> Suc (hollow_len h') =
           hollow_len (SpookyHollow (Node Leaf (- 2) \<lparr>tvalue = 10, weight = 5\<rparr> (Node Leaf (- 1) \<lparr>tvalue = 2, weight = 2\<rparr> Leaf)))
      | None \<Rightarrow> hollow_len h' =
           hollow_len (SpookyHollow (Node Leaf (- 2) \<lparr>tvalue = 10, weight = 5\<rparr> (Node Leaf (- 1) \<lparr>tvalue = 2, weight = 2\<rparr> Leaf))) \<and>
          hollow_treasures h' =
           hollow_treasures (SpookyHollow (Node Leaf (- 2) \<lparr>tvalue = 10, weight = 5\<rparr> (Node Leaf (- 1) \<lparr>tvalue = 2, weight = 2\<rparr> Leaf))) \<and>
          hollow_entries h' =
           hollow_entries (SpookyHollow (Node Leaf (- 2) \<lparr>tvalue = 10, weight = 5\<rparr> (Node Leaf (- 1) \<lparr>tvalue = 2, weight = 2\<rparr> Leaf))))"
proof -
  have h: "hollow_inv (SpookyHollow (Node Leaf (- 2) \<lparr>tvalue = 10, weight = 5\<rparr> (Node Leaf (- 1) \<lparr>tvalue = 2, weight = 2\<rparr> Leaf)))"
    by (simp add: bst_inv_def)
  show ?thesis by (rule get_optimal_treasure_size[OF h])
qed

text \<open>
  C3: on a max-heap, the loop of \<^verbatim>\<open>MysticalHollow.get_optimal_treasure\<close> extracts
  entries in non-increasing ratio order; every extracted entry that does not fit is held
  in \<open>temp_storage\<close> (\<open>rej\<close>), and after the loop each of them is added back. When a
  treasure is returned it fits, no fitting entry of the heap has a greater ratio, and the
  final heap is the initial one without that single entry; when None is returned the loop
  has emptied the heap and the final heap has the initial entries again.
\<close>

theorem mystical_get_optimal_treasure_restores_rejected:
  assumes "heap_inv h"
  shows "\<exists>res h' rej.
     mystical_loop h cap [] = Inr (res, h', rej) \<and>
     mystical_get_optimal_treasure h cap = Inr (res, fold (\<lambda>e h. heap_add h e) rej h') \<and>
     heap_inv (fold (\<lambda>e h. heap_add h e) rej h') \<and>
     (\<forall>e \<in> set rej. cap < weight (snd e)) \<and>
     sorted_wrt (\<lambda>a b. fst b \<le> fst a) rej \<and>
     (case res of
        None \<Rightarrow> h' = [] \<and> mset rej = mset h \<and> mset (fold (\<lambda>e h. heap_add h e) rej h') = mset h
      | Some t \<Rightarrow> weight t \<le> cap \<and>
          (\<exists>r. (\<forall>e \<in> set rej. r \<le> fst e) \<and>
               (\<forall>e \<in> set h. weight (snd e) \<le> cap \<longrightarrow> fst e \<le> r) \<and>
               mset h = add_mset (r, t) (mset (fold (\<lambda>e h. heap_add h e) rej h'))))"
  using assms by (rule mystical_get_optimal_treasure_result)

theorem mystical_get_optimal_treasure_restores_rejected_witness:
  "\<exists>res h' rej.
     mystical_loop [(3, \<lparr>tvalue = 27, weight = 9\<rparr>), (2, \<lparr>tvalue = 2, weight = 1\<rparr>),
                    (1, \<lparr>tvalue = 5, weight = 5\<rparr>)] 4 [] = Inr (res, h', rej) \<and>
     mystical_get_optimal_treasure [(3, \<lparr>tvalue = 27, weight = 9\<rparr>), (2, \<lparr>tvalue = 2, weight = 1\<rparr>),
                    (1, \<lparr>tvalue = 5, weight = 5\<rparr>)] 4 = Inr (res, fold (\<lambda>e h. heap_add h e) rej h') \<and>
     heap_inv (fold (\<lambda>e h. heap_add h e) rej h') \<and>
     (\<forall>e \<in> set rej. 4 < weight (snd e)) \<and>
     sorted_wrt (\<lambda>a b. fst b \<le> fst a) rej \<and>
     (case res of
        None \<Rightarrow> h' = [] \<and> mset rej = mset [(3, \<lparr>tvalue = 27, weight = 9\<rparr>), (2, \<lparr>tvalue = 2, weight = 1\<rparr>),
                    (1, \<lparr>tvalue = 5, weight = 5\<rparr>)] \<and>
                 mset (fold (\<lambda>e h. heap_add h e) rej h') = mset [(3, \<lparr>tvalue = 27, weight = 9\<rparr>), (2, \<lparr>tvalue = 2, weight = 1\<rparr>),
                    (1, \<lparr>tvalue = 5, weight = 5\<rparr>)]
      | Some t \<Rightarrow> weight t \<le> 4 \<and>
          (\<exists>r. (\<forall>e \<in> set rej. r \<le> fst e) \<and>
               (\<forall>e \<in> set [(3, \<lparr>tvalue = 27, weight = 9\<rparr>), (2, \<lparr>tvalue = 2, weight = 1\<rparr>),
                    (1, \<lparr>tvalue = 5, weight = 5\<rparr>)]. weight (snd e) \<le> 4 \<longrightarrow> fst e \<le> r) \<and>
               mset [(3, \<lparr>tvalue = 27, weight = 9\<rparr>), (2, \<lparr>tvalue = 2, weight = 1\<rparr>),
                    (1, \<lparr>tvalue = 5, weight = 5\<rparr>)] = add_mset (r, t) (mset (fold (\<lambda>e h. heap_add h e) rej h'))))"
proof -
  have h: "heap_inv [(3::rat, \<lparr>tvalue = 27, weight = 9\<rparr>), (2, \<lparr>tvalue = 2, weight = 1\<rparr>),
                    (1, \<lparr>tvalue = 5, weight = 5\<rparr>)]"
    by (simp add: heap_inv_def parent_def upt_rec)
  show ?thesis by (rule mystical_get_optimal_treasure_restores_rejected[OF h])
qed

section \<open>Properties of the maze\<close>

text \<open>
  C7: in a maze whose grid has \<open>rows\<close> rows of \<open>cols\<close> cells,
  \<^verbatim>\<open>get_available_positions\<close> returns the neighbours up, down, left and right of the
  position, in this order, keeping exactly those that lie within the bounds and whose tile is
  not the wall; \<^verbatim>\<open>is_valid_position\<close> holds of a position if and only if it lies within
  the bounds and its tile is not the wall, so that a start, exit, empty or hollow tile is
  passable (the wall character being different from the start, exit and empty characters).
\<close>

theorem get_available_positions_up_down_left_right:
  assumes "grid_shape self"
  shows "get_available_positions T self p =
           Inr (filter (\<lambda>q. in_bounds self q \<and>
                             tile (grid self ! nat (row q) ! nat (col q)) \<noteq> Tile_str (WALL T))
                  [\<lparr>row = row p - 1, col = col p\<rparr>, \<lparr>row = row p + 1, col = col p\<rparr>,
                   \<lparr>row = row p, col = col p - 1\<rparr>, \<lparr>row = row p, col = col p + 1\<rparr>]) \<and>
         is_valid_position T self q =
           Inr (in_bounds self q \<and> tile (grid self ! nat (row q) ! nat (col q)) \<noteq> Tile_str (WALL T)) \<and>
         (in_bounds self q \<and> WALL T \<notin> {CHR '' '', START_POSITION T, EXIT T} \<and>
          tile (grid self ! nat (row q) ! nat (col q)) \<in>
            {Tile_str (CHR '' ''), Tile_str (START_POSITION T), Tile_str (EXIT T), Tile_hollow h}
          \<longrightarrow> is_valid_position T self q = Inr True)"
proof (intro conjI impI)
  show "get_available_positions T self p =
           Inr (filter (\<lambda>q. in_bounds self q \<and>
                             tile (grid self ! nat (row q) ! nat (col q)) \<noteq> Tile_str (WALL T))
                  [\<lparr>row = row p - 1, col = col p\<rparr>, \<lparr>row = row p + 1, col = col p\<rparr>,
                   \<lparr>row = row p, col = col p - 1\<rparr>, \<lparr>row = row p, col = col p + 1\<rparr>])"
    unfolding get_available_positions_def available_from_shape[OF assms] directions_def by simp
  show v: "is_valid_position T self q =
           Inr (in_bounds self q \<and> tile (grid self ! nat (row q) ! nat (col q)) \<noteq> Tile_str (WALL T))"
    by (rule is_valid_position_shape[OF assms])
  assume "in_bounds self q \<and> WALL T \<notin> {CHR '' '', START_POSITION T, EXIT T} \<and>
          tile (grid self ! nat (row q) ! nat (col q)) \<in>
            {Tile_str (CHR '' ''), Tile_str (START_POSITION T), Tile_str (EXIT T), Tile_hollow h}"
  then show "is_valid_position T self q = Inr True" unfolding v by auto
qed

theorem get_available_positions_up_down_left_right_witness:
  "get_available_positions
     \<lparr>START_POSITION = CHR ''P'', EXIT = CHR ''E'', WALL = CHR ''#'', SPOOKY_HOLLOW = CHR ''S'', MYSTICAL_HOLLOW = CHR ''M'', OTHER = [CHR '' '']\<rparr>
     \<lparr>start_position = \<lparr>row = 0, col = 0\<rparr>, end_positions = [\<lparr>row = 1, col = 1\<rparr>], rows = 2, cols = 2,
       grid = [[\<lparr>tile = Tile_str (CHR ''P''), position = \<lparr>row = 0, col = 0\<rparr>, visited = False\<rparr>,
                \<lparr>tile = Tile_str (CHR ''#''), position = \<lparr>row = 0, col = 1\<rparr>, visited = False\<rparr>],
               [\<lparr>tile = Tile_hollow 0, position = \<lparr>row = 1, col = 0\<rparr>, visited = False\<rparr>,
                \<lparr>tile = Tile_str (CHR ''E''), position = \<lparr>row = 1, col = 1\<rparr>, visited = False\<rparr>]]\<rparr>
     \<lparr>row = 0, col = 0\<rparr> = Inr [\<lparr>row = 1, col = 0\<rparr>] \<and>
   is_valid_position
     \<lparr>START_POSITION = CHR ''P'', EXIT = CHR ''E'', WALL = CHR ''#'', SPOOKY_HOLLOW = CHR ''S'', MYSTICAL_HOLLOW = CHR ''M'', OTHER = [CHR '' '']\<rparr>
     \<lparr>start_position = \<lparr>row = 0, col = 0\<rparr>, end_positions = [\<lparr>row = 1, col = 1\<rparr>], rows = 2, cols = 2,
       grid = [[\<lparr>tile = Tile_str (CHR ''P''), position = \<lparr>row = 0, col = 0\<rparr>, visited = False\<rparr>,
                \<lparr>tile = Tile_str (CHR ''#''), position = \<lparr>row = 0, col = 1\<rparr>, visited = False\<rparr>],
               [\<lparr>tile = Tile_hollow 0, position = \<lparr>row = 1, col = 0\<rparr>, visited = False\<rparr>,
                \<lparr>tile = Tile_str (CHR ''E''), position = \<lparr>row = 1, col = 1\<rparr>, visited = False\<rparr>]]\<rparr>
     \<lparr>row = 0, col = 1\<rparr> = Inr False \<and>
   is_valid_position
     \<lparr>START_POSITION = CHR ''P'', EXIT = CHR ''E'', WALL = CHR ''#'', SPOOKY_HOLLOW = CHR ''S'', MYSTICAL_HOLLOW = CHR ''M'', OTHER = [CHR '' '']\<rparr>
     \<lparr>start_position = \<lparr>row = 0, col = 0\<rparr>, end_positions = [\<lparr>row = 1, col = 1\<rparr>], rows = 2, cols = 2,
       grid = [[\<lparr>tile = Tile_str (CHR ''P''), position = \<lparr>row = 0, col = 0\<rparr>, visited = False\<rparr>,
                \<lparr>tile = Tile_str (CHR ''#''), position = \<lparr>row = 0, col = 1\<rparr>, visited = False\<rparr>],
               [\<lparr>tile = Tile_hollow 0, position = \<lparr>row = 1, col = 0\<rparr>, visited = False\<rparr>,
                \<lparr>tile = Tile_str (CHR ''E''), position = \<lparr>row = 1, col = 1\<rparr>, visited = False\<rparr>]]\<rparr>
     \<lparr>row = 1, col = 0\<rparr> = Inr True"
proof -
  have s: "grid_shape
     \<lparr>start_position = \<lparr>row = 0, col = 0\<rparr>, end_positions = [\<lparr>row = 1, col = 1\<rparr>], rows = 2, cols = 2,
       grid = [[\<lparr>tile = Tile_str (CHR ''P''), position = \<lparr>row = 0, col = 0\<rparr>, visited = False\<rparr>,
                \<lparr>tile = Tile_str (CHR ''#''), position = \<lparr>row = 0, col = 1\<rparr>, visited = False\<rparr>],
               [\<lparr>tile = Tile_hollow 0, position = \<lparr>row = 1, col = 0\<rparr>, visited = False\<rparr>,
                \<lparr>tile = Tile_str (CHR ''E''), position = \<lparr>row = 1, col = 1\<rparr>, visited = False\<rparr>]]\<rparr>"
    by (simp add: grid_shape_def)
  have a: "get_available_positions
     \<lparr>START_POSITION = CHR ''P'', EXIT = CHR ''E'', WALL = CHR ''#'', SPOOKY_HOLLOW = CHR ''S'', MYSTICAL_HOLLOW = CHR ''M'', OTHER = [CHR '' '']\<rparr>
     \<lparr>start_position = \<lparr>row = 0, col = 0\<rparr>, end_positions = [\<lparr>row = 1, col = 1\<rparr>], rows = 2, cols = 2,
       grid = [[\<lparr>tile = Tile_str (CHR ''P''), position = \<lparr>row = 0, col = 0\<rparr>, visited = False\<rparr>,
                \<lparr>tile = Tile_str (CHR ''#''), position = \<lparr>row = 0, col = 1\<rparr>, visited = False\<rparr>],
               [\<lparr>tile = Tile_hollow 0, position = \<lparr>row = 1, col = 0\<rparr>, visited = False\<rparr>,
                \<lparr>tile = Tile_str (CHR ''E''), position = \<lparr>row = 1, col = 1\<rparr>, visited = False\<rparr>]]\<rparr>
     \<lparr>row = 0, col = 0\<rparr> = Inr [\<lparr>row = 1, col = 0\<rparr>]"
    using get_available_positions_up_down_left_right[OF s, of
     "\<lparr>START_POSITION = CHR ''P'', EXIT = CHR ''E'', WALL = CHR ''#'', SPOOKY_HOLLOW = CHR ''S'', MYSTICAL_HOLLOW = CHR ''M'', OTHER = [CHR '' '']\<rparr>"
     "\<lparr>row = 0, col = 0\<rparr>"]
    by (simp add: in_bounds_def)
  have b: "is_valid_position
     \<lparr>START_POSITION = CHR ''P'', EXIT = CHR ''E'', WALL = CHR ''#'', SPOOKY_HOLLOW = CHR ''S'', MYSTICAL_HOLLOW = CHR ''M'', OTHER = [CHR '' '']\<rparr>
     \<lparr>start_position = \<lparr>row = 0, col = 0\<rparr>, end_positions = [\<lparr>row = 1, col = 1\<rparr>], rows = 2, cols = 2,
       grid = [[\<lparr>tile = Tile_str (CHR ''P''), position = \<lparr>row = 0, col = 0\<rparr>, visited = False\<rparr>,
                \<lparr>tile = Tile_str (CHR ''#''), position = \<lparr>row = 0, col = 1\<rparr>, visited = False\<rparr>],
               [\<lparr>tile = Tile_hollow 0, position = \<lparr>row = 1, col = 0\<rparr>, visited = False\<rparr>,
                \<lparr>tile = Tile_str (CHR ''E''), position = \<lparr>row = 1, col = 1\<rparr>, visited = False\<rparr>]]\<rparr>
     \<lparr>row = 0, col = 1\<rparr> = Inr False"
    using get_available_positions_up_down_left_right[OF s, of
     "\<lparr>START_POSITION = CHR ''P'', EXIT = CHR ''E'', WALL = CHR ''#'', SPOOKY_HOLLOW = CHR ''S'', MYSTICAL_HOLLOW = CHR ''M'', OTHER = [CHR '' '']\<rparr>" _
     "\<lparr>row = 0, col = 1\<rparr>"]
    by (simp add: in_bounds_def)
  have c: "is_valid_position
     \<lparr>START_POSITION = CHR ''P'', EXIT = CHR ''E'', WALL = CHR ''#'', SPOOKY_HOLLOW = CHR ''S'', MYSTICAL_HOLLOW = CHR ''M'', OTHER = [CHR '' '']\<rparr>
     \<lparr>start_position = \<lparr>row = 0, col = 0\<rparr>, end_positions = [\<lparr>row = 1, col = 1\<rparr>], rows = 2, cols = 2,
       grid = [[\<lparr>tile = Tile_str (CHR ''P''), position = \<lparr>row = 0, col = 0\<rparr>, visited = False\<rparr>,
                \<lparr>tile = Tile_str (CHR ''#''), position = \<lparr>row = 0, col = 1\<rparr>, visited = False\<rparr>],
               [\<lparr>tile = Tile_hollow 0, position = \<lparr>row = 1, col = 0\<rparr>, visited = False\<rparr>,
                \<lparr>tile = Tile_str (CHR ''E''), position = \<lparr>row = 1, col = 1\<rparr>, visited = False\<rparr>]]\<rparr>
     \<lparr>row = 1, col = 0\<rparr> = Inr True"
    using get_available_positions_up_down_left_right[OF s, of
     "\<lparr>START_POSITION = CHR ''P'', EXIT = CHR ''E'', WALL = CHR ''#'', SPOOKY_HOLLOW = CHR ''S'', MYSTICAL_HOLLOW = CHR ''M'', OTHER = [CHR '' '']\<rparr>" _
     "\<lparr>row = 1, col = 0\<rparr>" 0]
    by (simp add: in_bounds_def)
  from a b c show ?thesis by (intro conjI)
qed

text \<open>
  C6: \<^verbatim>\<open>find_way_out\<close> never exhausts its recursion budget, and returns when the grid
  has \<open>rows\<close> rows of \<open>cols\<close> cells and the start position lies within the bounds. In
  every call of
  \<^verbatim>\<open>find_path_aux\<close> that returns (with a path or, after backtracking, with None) every
  cell that was visited before the call is visited after it, and the cells that the call
  has marked were all unvisited before it, are visited after it, and are pairwise different:
  no cell is expanded twice.
\<close>

theorem visited_flag_is_permanent:
  "find_way_out T self \<noteq> OutOfFuel \<and>
   (grid_shape self \<and> in_bounds self (start_position self) \<longrightarrow>
      (\<exists>r0 self0 path0 ex0. find_way_out T self = Returned r0 self0 path0 ex0)) \<and>
   (find_path_aux n T self cur path ex = Returned r self' path' ex' \<longrightarrow>
      (\<forall>i j. i < length (grid self) \<and> j < length (grid self ! i) \<and> visited (grid self ! i ! j)
             \<longrightarrow> visited (grid self' ! i ! j)) \<and>
      (\<exists>new. ex' = ex @ new \<and> distinct (map (grid_index (grid self)) new) \<and>
         (\<forall>p \<in> set new. \<exists>i j. grid_index (grid self) p = Inr (i, j) \<and>
             \<not> visited (grid self ! i ! j) \<and> visited (grid self' ! i ! j))))"
proof (intro conjI impI)
  show "find_way_out T self \<noteq> OutOfFuel" by (rule find_way_out_terminates)
next
  assume "grid_shape self \<and> in_bounds self (start_position self)"
  then show "\<exists>r0 self0 path0 ex0. find_way_out T self = Returned r0 self0 path0 ex0"
    by (intro find_way_out_returns) simp_all
next
  assume run: "find_path_aux n T self cur path ex = Returned r self' path' ex'"
  from find_path_aux_marked_run(1)[OF run] obtain new where n:
    "ex' = ex @ new"
    "distinct (map (grid_index (grid self)) new)"
    "\<forall>p \<in> set new. \<exists>i j. grid_index (grid self) p = Inr (i, j) \<and> \<not> visited (grid self ! i ! j)"
    "\<forall>i j. i < length (grid self) \<longrightarrow> j < length (grid self ! i) \<longrightarrow>
           grid self' ! i ! j =
             (if Inr (i, j) \<in> grid_index (grid self) ` set new
              then (grid self ! i ! j)\<lparr>visited := True\<rparr> else grid self ! i ! j)"
    unfolding marked_run_def by blast
  show "\<forall>i j. i < length (grid self) \<and> j < length (grid self ! i) \<and> visited (grid self ! i ! j)
             \<longrightarrow> visited (grid self' ! i ! j)"
    using n(4) by simp
  have "\<exists>i j. grid_index (grid self) p = Inr (i, j) \<and>
             \<not> visited (grid self ! i ! j) \<and> visited (grid self' ! i ! j)" if "p \<in> set new" for p
  proof -
    from n(3) that obtain i j where ij: "grid_index (grid self) p = Inr (i, j)"
      "\<not> visited (grid self ! i ! j)" by blast
    from grid_index_range[OF ij(1)] have "i < length (grid self)" "j < length (grid self ! i)"
      by simp_all
    with n(4) have "grid self' ! i ! j =
             (if Inr (i, j) \<in> grid_index (grid self) ` set new
              then (grid self ! i ! j)\<lparr>visited := True\<rparr> else grid self ! i ! j)" by blast
    moreover have "Inr (i, j) \<in> grid_index (grid self) ` set new" using that ij(1) by force
    ultimately have "visited (grid self' ! i ! j)" by simp
    with ij show ?thesis by blast
  qed
  with n(1,2) show "\<exists>new. ex' = ex @ new \<and> distinct (map (grid_index (grid self)) new) \<and>
         (\<forall>p \<in> set new. \<exists>i j. grid_index (grid self) p = Inr (i, j) \<and>
             \<not> visited (grid self ! i ! j) \<and> visited (grid self' ! i ! j))"
    by blast
qed

theorem visited_flag_is_permanent_witness:
  "find_way_out
     \<lparr>START_POSITION = CHR ''P'', EXIT = CHR ''E'', WALL = CHR ''#'', SPOOKY_HOLLOW = CHR ''S'', MYSTICAL_HOLLOW = CHR ''M'', OTHER = [CHR '' '']\<rparr>
     \<lparr>start_position = \<lparr>row = 1, col = 0\<rparr>, end_positions = [\<lparr>row = 2, col = 1\<rparr>], rows = 3, cols = 2, grid =
  [[\<lparr>tile = Tile_str (CHR '' ''), position = \<lparr>row = 0, col = 0\<rparr>, visited = False\<rparr>, \<lparr>tile = Tile_str (CHR ''#''), position = \<lparr>row = 0, col = 1\<rparr>, visited = False\<rparr>],
   [\<lparr>tile = Tile_str (CHR ''P''), position = \<lparr>row = 1, col = 0\<rparr>, visited = False\<rparr>, \<lparr>tile = Tile_str (CHR ''#''), position = \<lparr>row = 1, col = 1\<rparr>, visited = False\<rparr>],
   [\<lparr>tile = Tile_str (CHR '' ''), position = \<lparr>row = 2, col = 0\<rparr>, visited = False\<rparr>, \<lparr>tile = Tile_str (CHR ''E''), position = \<lparr>row = 2, col = 1\<rparr>, visited = False\<rparr>]]\<rparr> \<noteq> OutOfFuel \<and>
   (\<exists>new. [\<lparr>row = 1, col = 0\<rparr>, \<lparr>row = 0, col = 0\<rparr>, \<lparr>row = 2, col = 0\<rparr>] = [] @ new \<and>
      distinct (map (grid_index (grid
     \<lparr>start_position = \<lparr>row = 1, col = 0\<rparr>, end_positions = [\<lparr>row = 2, col = 1\<rparr>], rows = 3, cols = 2, grid =
  [[\<lparr>tile = Tile_str (CHR '' ''), position = \<lparr>row = 0, col = 0\<rparr>, visited = False\<rparr>, \<lparr>tile = Tile_str (CHR ''#''), position = \<lparr>row = 0, col = 1\<rparr>, visited = False\<rparr>],
   [\<lparr>tile = Tile_str (CHR ''P''), position = \<lparr>row = 1, col = 0\<rparr>, visited = False\<rparr>, \<lparr>tile = Tile_str (CHR ''#''), position = \<lparr>row = 1, col = 1\<rparr>, visited = False\<rparr>],
   [\<lparr>tile = Tile_str (CHR '' ''), position = \<lparr>row = 2, col = 0\<rparr>, visited = False\<rparr>, \<lparr>tile = Tile_str (CHR ''E''), position = \<lparr>row = 2, col = 1\<rparr>, visited = False\<rparr>]]\<rparr>)) new) \<and>
      (\<forall>p \<in> set new. \<exists>i j. grid_index (grid
     \<lparr>start_position = \<lparr>row = 1, col = 0\<rparr>, end_positions = [\<lparr>row = 2, col = 1\<rparr>], rows = 3, cols = 2, grid =
  [[\<lparr>tile = Tile_str (CHR '' ''), position = \<lparr>row = 0, col = 0\<rparr>, visited = False\<rparr>, \<lparr>tile = Tile_str (CHR ''#''), position = \<lparr>row = 0, col = 1\<rparr>, visited = False\<rparr>],
   [\<lparr>tile = Tile_str (CHR ''P''), position = \<lparr>row = 1, col = 0\<rparr>, visited = False\<rparr>, \<lparr>tile = Tile_str (CHR ''#''), position = \<lparr>row = 1, col = 1\<rparr>, visited = False\<rparr>],
   [\<lparr>tile = Tile_str (CHR '' ''), position = \<lparr>row = 2, col = 0\<rparr>, visited = False\<rparr>, \<lparr>tile = Tile_str (CHR ''E''), position = \<lparr>row = 2, col = 1\<rparr>, visited = False\<rparr>]]\<rparr>) p = Inr (i, j) \<and>
          \<not> visited (grid
     \<lparr>start_position = \<lparr>row = 1, col = 0\<rparr>, end_positions = [\<lparr>row = 2, col = 1\<rparr>], rows = 3, cols = 2, grid =
  [[\<lparr>tile = Tile_str (CHR '' ''), position = \<lparr>row = 0, col = 0\<rparr>, visited = False\<rparr>, \<lparr>tile = Tile_str (CHR ''#''), position = \<lparr>row = 0, col = 1\<rparr>, visited = False\<rparr>],
   [\<lparr>tile = Tile_str (CHR ''P''), position = \<lparr>row = 1, col = 0\<rparr>, visited = False\<rparr>, \<lparr>tile = Tile_str (CHR ''#''), position = \<lparr>row = 1, col = 1\<rparr>, visited = False\<rparr>],
   [\<lparr>tile = Tile_str (CHR '' ''), position = \<lparr>row = 2, col = 0\<rparr>, visited = False\<rparr>, \<lparr>tile = Tile_str (CHR ''E''), position = \<lparr>row = 2, col = 1\<rparr>, visited = False\<rparr>]]\<rparr> ! i ! j) \<and>
          visited (grid
     \<lparr>start_position = \<lparr>row = 1, col = 0\<rparr>, end_positions = [\<lparr>row = 2, col = 1\<rparr>], rows = 3, cols = 2, grid =
  [[\<lparr>tile = Tile_str (CHR '' ''), position = \<lparr>row = 0, col = 0\<rparr>, visited = True\<rparr>, \<lparr>tile = Tile_str (CHR ''#''), position = \<lparr>row = 0, col = 1\<rparr>, visited = False\<rparr>],
   [\<lparr>tile = Tile_str (CHR ''P''), position = \<lparr>row = 1, col = 0\<rparr>, visited = True\<rparr>, \<lparr>tile = Tile_str (CHR ''#''), position = \<lparr>row = 1, col = 1\<rparr>, visited = False\<rparr>],
   [\<lparr>tile = Tile_str (CHR '' ''), position = \<lparr>row = 2, col = 0\<rparr>, visited = True\<rparr>, \<lparr>tile = Tile_str (CHR ''E''), position = \<lparr>row = 2, col = 1\<rparr>, visited = False\<rparr>]]\<rparr> ! i ! j)))"
proof -
  have "find_way_out
     \<lparr>START_POSITION = CHR ''P'', EXIT = CHR ''E'', WALL = CHR ''#'', SPOOKY_HOLLOW = CHR ''S'', MYSTICAL_HOLLOW = CHR ''M'', OTHER = [CHR '' '']\<rparr>
     \<lparr>start_position = \<lparr>row = 1, col = 0\<rparr>, end_positions = [\<lparr>row = 2, col = 1\<rparr>], rows = 3, cols = 2, grid =
  [[\<lparr>tile = Tile_str (CHR '' ''), position = \<lparr>row = 0, col = 0\<rparr>, visited = False\<rparr>, \<lparr>tile = Tile_str (CHR ''#''), position = \<lparr>row = 0, col = 1\<rparr>, visited = False\<rparr>],
   [\<lparr>tile = Tile_str (CHR ''P''), position = \<lparr>row = 1, col = 0\<rparr>, visited = False\<rparr>, \<lparr>tile = Tile_str (CHR ''#''), position = \<lparr>row = 1, col = 1\<rparr>, visited = False\<rparr>],
   [\<lparr>tile = Tile_str (CHR '' ''), position = \<lparr>row = 2, col = 0\<rparr>, visited = False\<rparr>, \<lparr>tile = Tile_str (CHR ''E''), position = \<lparr>row = 2, col = 1\<rparr>, visited = False\<rparr>]]\<rparr> = Returned (Some [\<lparr>row = 1, col = 0\<rparr>, \<lparr>row = 2, col = 0\<rparr>, \<lparr>row = 2, col = 1\<rparr>])
     \<lparr>start_position = \<lparr>row = 1, col = 0\<rparr>, end_positions = [\<lparr>row = 2, col = 1\<rparr>], rows = 3, cols = 2, grid =
  [[\<lparr>tile = Tile_str (CHR '' ''), position = \<lparr>row = 0, col = 0\<rparr>, visited = True\<rparr>, \<lparr>tile = Tile_str (CHR ''#''), position = \<lparr>row = 0, col = 1\<rparr>, visited = False\<rparr>],
   [\<lparr>tile = Tile_str (CHR ''P''), position = \<lparr>row = 1, col = 0\<rparr>, visited = True\<rparr>, \<lparr>tile = Tile_str (CHR ''#''), position = \<lparr>row = 1, col = 1\<rparr>, visited = False\<rparr>],
   [\<lparr>tile = Tile_str (CHR '' ''), position = \<lparr>row = 2, col = 0\<rparr>, visited = True\<rparr>, \<lparr>tile = Tile_str (CHR ''E''), position = \<lparr>row = 2, col = 1\<rparr>, visited = False\<rparr>]]\<rparr>
     [\<lparr>row = 1, col = 0\<rparr>, \<lparr>row = 2, col = 0\<rparr>, \<lparr>row = 2, col = 1\<rparr>] [\<lparr>row = 1, col = 0\<rparr>, \<lparr>row = 0, col = 0\<rparr>, \<lparr>row = 2, col = 0\<rparr>]"
    by code_simp
  then have run: "find_path_aux (Suc (length (concat (grid
     \<lparr>start_position = \<lparr>row = 1, col = 0\<rparr>, end_positions = [\<lparr>row = 2, col = 1\<rparr>], rows = 3, cols = 2, grid =
  [[\<lparr>tile = Tile_str (CHR '' ''), position = \<lparr>row = 0, col = 0\<rparr>, visited = False\<rparr>, \<lparr>tile = Tile_str (CHR ''#''), position = \<lparr>row = 0, col = 1\<rparr>, visited = False\<rparr>],
   [\<lparr>tile = Tile_str (CHR ''P''), position = \<lparr>row = 1, col = 0\<rparr>, visited = False\<rparr>, \<lparr>tile = Tile_str (CHR ''#''), position = \<lparr>row = 1, col = 1\<rparr>, visited = False\<rparr>],
   [\<lparr>tile = Tile_str (CHR '' ''), position = \<lparr>row = 2, col = 0\<rparr>, visited = False\<rparr>, \<lparr>tile = Tile_str (CHR ''E''), position = \<lparr>row = 2, col = 1\<rparr>, visited = False\<rparr>]]\<rparr>)))) \<lparr>START_POSITION = CHR ''P'', EXIT = CHR ''E'', WALL = CHR ''#'', SPOOKY_HOLLOW = CHR ''S'', MYSTICAL_HOLLOW = CHR ''M'', OTHER = [CHR '' '']\<rparr>
     \<lparr>start_position = \<lparr>row = 1, col = 0\<rparr>, end_positions = [\<lparr>row = 2, col = 1\<rparr>], rows = 3, cols = 2, grid =
  [[\<lparr>tile = Tile_str (CHR '' ''), position = \<lparr>row = 0, col = 0\<rparr>, visited = False\<rparr>, \<lparr>tile = Tile_str (CHR ''#''), position = \<lparr>row = 0, col = 1\<rparr>, visited = False\<rparr>],
   [\<lparr>tile = Tile_str (CHR ''P''), position = \<lparr>row = 1, col = 0\<rparr>, visited = False\<rparr>, \<lparr>tile = Tile_str (CHR ''#''), position = \<lparr>row = 1, col = 1\<rparr>, visited = False\<rparr>],
   [\<lparr>tile = Tile_str (CHR '' ''), position = \<lparr>row = 2, col = 0\<rparr>, visited = False\<rparr>, \<lparr>tile = Tile_str (CHR ''E''), position = \<lparr>row = 2, col = 1\<rparr>, visited = False\<rparr>]]\<rparr>
     (start_position
     \<lparr>start_position = \<lparr>row = 1, col = 0\<rparr>, end_positions = [\<lparr>row = 2, col = 1\<rparr>], rows = 3, cols = 2, grid =
  [[\<lparr>tile = Tile_str (CHR '' ''), position = \<lparr>row = 0, col = 0\<rparr>, visited = False\<rparr>, \<lparr>tile = Tile_str (CHR ''#''), position = \<lparr>row = 0, col = 1\<rparr>, visited = False\<rparr>],
   [\<lparr>tile = Tile_str (CHR ''P''), position = \<lparr>row = 1, col = 0\<rparr>, visited = False\<rparr>, \<lparr>tile = Tile_str (CHR ''#''), position = \<lparr>row = 1, col = 1\<rparr>, visited = False\<rparr>],
   [\<lparr>tile = Tile_str (CHR '' ''), position = \<lparr>row = 2, col = 0\<rparr>, visited = False\<rparr>, \<lparr>tile = Tile_str (CHR ''E''), position = \<lparr>row = 2, col = 1\<rparr>, visited = False\<rparr>]]\<rparr>) [] [] = Returned (Some [\<lparr>row = 1, col = 0\<rparr>, \<lparr>row = 2, col = 0\<rparr>, \<lparr>row = 2, col = 1\<rparr>])
     \<lparr>start_position = \<lparr>row = 1, col = 0\<rparr>, end_positions = [\<lparr>row = 2, col = 1\<rparr>], rows = 3, cols = 2, grid =
  [[\<lparr>tile = Tile_str (CHR '' ''), position = \<lparr>row = 0, col = 0\<rparr>, visited = True\<rparr>, \<lparr>tile = Tile_str (CHR ''#''), position = \<lparr>row = 0, col = 1\<rparr>, visited = False\<rparr>],
   [\<lparr>tile = Tile_str (CHR ''P''), position = \<lparr>row = 1, col = 0\<rparr>, visited = True\<rparr>, \<lparr>tile = Tile_str (CHR ''#''), position = \<lparr>row = 1, col = 1\<rparr>, visited = False\<rparr>],
   [\<lparr>tile = Tile_str (CHR '' ''), position = \<lparr>row = 2, col = 0\<rparr>, visited = True\<rparr>, \<lparr>tile = Tile_str (CHR ''E''), position = \<lparr>row = 2, col = 1\<rparr>, visited = False\<rparr>]]\<rparr>
     [\<lparr>row = 1, col = 0\<rparr>, \<lparr>row = 2, col = 0\<rparr>, \<lparr>row = 2, col = 1\<rparr>] [\<lparr>row = 1, col = 0\<rparr>, \<lparr>row = 0, col = 0\<rparr>, \<lparr>row = 2, col = 0\<rparr>]"
    unfolding find_way_out_def .
  note t = visited_flag_is_permanent[of
     "\<lparr>START_POSITION = CHR ''P'', EXIT = CHR ''E'', WALL = CHR ''#'', SPOOKY_HOLLOW = CHR ''S'', MYSTICAL_HOLLOW = CHR ''M'', OTHER = [CHR '' '']\<rparr>"
     "\<lparr>start_position = \<lparr>row = 1, col = 0\<rparr>, end_positions = [\<lparr>row = 2, col = 1\<rparr>], rows = 3, cols = 2, grid =
  [[\<lparr>tile = Tile_str (CHR '' ''), position = \<lparr>row = 0, col = 0\<rparr>, visited = False\<rparr>, \<lparr>tile = Tile_str (CHR ''#''), position = \<lparr>row = 0, col = 1\<rparr>, visited = False\<rparr>],
   [\<lparr>tile = Tile_str (CHR ''P''), position = \<lparr>row = 1, col = 0\<rparr>, visited = False\<rparr>, \<lparr>tile = Tile_str (CHR ''#''), position = \<lparr>row = 1, col = 1\<rparr>, visited = False\<rparr>],
   [\<lparr>tile = Tile_str (CHR '' ''), position = \<lparr>row = 2, col = 0\<rparr>, visited = False\<rparr>, \<lparr>tile = Tile_str (CHR ''E''), position = \<lparr>row = 2, col = 1\<rparr>, visited = False\<rparr>]]\<rparr>"
     "Suc (length (concat (grid
     \<lparr>start_position = \<lparr>row = 1, col = 0\<rparr>, end_positions = [\<lparr>row = 2, col = 1\<rparr>], rows = 3, cols = 2, grid =
  [[\<lparr>tile = Tile_str (CHR '' ''), position = \<lparr>row = 0, col = 0\<rparr>, visited = False\<rparr>, \<lparr>tile = Tile_str (CHR ''#''), position = \<lparr>row = 0, col = 1\<rparr>, visited = False\<rparr>],
   [\<lparr>tile = Tile_str (CHR ''P''), position = \<lparr>row = 1, col = 0\<rparr>, visited = False\<rparr>, \<lparr>tile = Tile_str (CHR ''#''), position = \<lparr>row = 1, col = 1\<rparr>, visited = False\<rparr>],
   [\<lparr>tile = Tile_str (CHR '' ''), position = \<lparr>row = 2, col = 0\<rparr>, visited = False\<rparr>, \<lparr>tile = Tile_str (CHR ''E''), position = \<lparr>row = 2, col = 1\<rparr>, visited = False\<rparr>]]\<rparr>)))"
     "start_position
     \<lparr>start_position = \<lparr>row = 1, col = 0\<rparr>, end_positions = [\<lparr>row = 2, col = 1\<rparr>], rows = 3, cols = 2, grid =
  [[\<lparr>tile = Tile_str (CHR '' ''), position = \<lparr>row = 0, col = 0\<rparr>, visited = False\<rparr>, \<lparr>tile = Tile_str (CHR ''#''), position = \<lparr>row = 0, col = 1\<rparr>, visited = False\<rparr>],
   [\<lparr>tile = Tile_str (CHR ''P''), position = \<lparr>row = 1, col = 0\<rparr>, visited = False\<rparr>, \<lparr>tile = Tile_str (CHR ''#''), position = \<lparr>row = 1, col = 1\<rparr>, visited = False\<rparr>],
   [\<lparr>tile = Tile_str (CHR '' ''), position = \<lparr>row = 2, col = 0\<rparr>, visited = False\<rparr>, \<lparr>tile = Tile_str (CHR ''E''), position = \<lparr>row = 2, col = 1\<rparr>, visited = False\<rparr>]]\<rparr>" "[]" "[]" "Some [\<lparr>row = 1, col = 0\<rparr>, \<lparr>row = 2, col = 0\<rparr>, \<lparr>row = 2, col = 1\<rparr>]"
     "\<lparr>start_position = \<lparr>row = 1, col = 0\<rparr>, end_positions = [\<lparr>row = 2, col = 1\<rparr>], rows = 3, cols = 2, grid =
  [[\<lparr>tile = Tile_str (CHR '' ''), position = \<lparr>row = 0, col = 0\<rparr>, visited = True\<rparr>, \<lparr>tile = Tile_str (CHR ''#''), position = \<lparr>row = 0, col = 1\<rparr>, visited = False\<rparr>],
   [\<lparr>tile = Tile_str (CHR ''P''), position = \<lparr>row = 1, col = 0\<rparr>, visited = True\<rparr>, \<lparr>tile = Tile_str (CHR ''#''), position = \<lparr>row = 1, col = 1\<rparr>, visited = False\<rparr>],
   [\<lparr>tile = Tile_str (CHR '' ''), position = \<lparr>row = 2, col = 0\<rparr>, visited = True\<rparr>, \<lparr>tile = Tile_str (CHR ''E''), position = \<lparr>row = 2, col = 1\<rparr>, visited = False\<rparr>]]\<rparr>"
     "[\<lparr>row = 1, col = 0\<rparr>, \<lparr>row = 2, col = 0\<rparr>, \<lparr>row = 2, col = 1\<rparr>]" "[\<lparr>row = 1, col = 0\<rparr>, \<lparr>row = 0, col = 0\<rparr>, \<lparr>row = 2, col = 0\<rparr>]"]
  from t[THEN conjunct1] t[THEN conjunct2, THEN conjunct2, THEN mp, OF run, THEN conjunct2]
  show ?thesis by (rule conjI)
qed

text \<open>
  C10: a call of \<^verbatim>\<open>find_path_aux\<close> at an end position appends the position and
  returns the path at once, leaving the maze as it is; hence \<^verbatim>\<open>find_way_out\<close> on a maze
  whose start position is an end position returns the one-cell path and changes no visited
  flag. No position that a search marks is an end position, and in a maze whose grid has
  \<open>rows\<close> rows of \<open>cols\<close> cells, searched from a position within the bounds, the cell at
  every end position within the bounds is after the search what it was before.
\<close>

theorem exit_check_precedes_visited_check:
  "(cur \<in> set (end_positions self) \<longrightarrow>
      find_path_aux (Suc n) T self cur path ex =
        Returned (Some (path @ [cur])) self (path @ [cur]) ex) \<and>
   (start_position self \<in> set (end_positions self) \<longrightarrow>
      find_way_out T self = Returned (Some [start_position self]) self [start_position self] []) \<and>
   (find_path_aux k T self cur path ex = Returned r self' path' ex' \<longrightarrow>
      (\<forall>p \<in> set (drop (length ex) ex'). p \<notin> set (end_positions self)) \<and>
      (grid_shape self \<and> in_bounds self cur \<longrightarrow>
         (\<forall>e \<in> set (end_positions self). in_bounds self e \<longrightarrow>
              grid_get (grid self') e = grid_get (grid self) e)))"
proof (intro conjI impI)
  assume "cur \<in> set (end_positions self)"
  then show "find_path_aux (Suc n) T self cur path ex =
        Returned (Some (path @ [cur])) self (path @ [cur]) ex" by simp
next
  assume "start_position self \<in> set (end_positions self)"
  then show "find_way_out T self = Returned (Some [start_position self]) self [start_position self] []"
    by (simp add: find_way_out_def)
next
  assume run: "find_path_aux k T self cur path ex = Returned r self' path' ex'"
  from find_path_aux_marked_run(1)[OF run] obtain new where n:
    "ex' = ex @ new" "\<forall>p \<in> set new. p \<notin> set (end_positions self)"
    unfolding marked_run_def by blast
  then show "\<forall>p \<in> set (drop (length ex) ex'). p \<notin> set (end_positions self)" by simp
next
  assume run: "find_path_aux k T self cur path ex = Returned r self' path' ex'"
    and wf: "grid_shape self \<and> in_bounds self cur"
  from find_path_aux_marked_run(1)[OF run] obtain new where n:
    "ex' = ex @ new" "\<forall>p \<in> set new. p \<notin> set (end_positions self)"
    "map length (grid self') = map length (grid self)"
    "\<forall>i j. i < length (grid self) \<longrightarrow> j < length (grid self ! i) \<longrightarrow>
           grid self' ! i ! j =
             (if Inr (i, j) \<in> grid_index (grid self) ` set new
              then (grid self ! i ! j)\<lparr>visited := True\<rparr> else grid self ! i ! j)"
    unfolding marked_run_def by blast
  from find_path_aux_in_bounds(1)[OF run] wf n(1) have inb: "list_all (in_bounds self) new" by simp
  show "\<forall>e \<in> set (end_positions self). in_bounds self e \<longrightarrow>
              grid_get (grid self') e = grid_get (grid self) e"
  proof (intro ballI impI)
    fix e assume e: "e \<in> set (end_positions self)" "in_bounds self e"
    from wf e(2) have gi: "grid_index (grid self) e = Inr (nat (row e), nat (col e))"
      by (intro grid_index_in_bounds) simp_all
    from grid_index_range[OF gi] have rg: "nat (row e) < length (grid self)"
      "nat (col e) < length (grid self ! nat (row e))" by simp_all
    have "Inr (nat (row e), nat (col e)) \<notin> grid_index (grid self) ` set new"
    proof
      assume "Inr (nat (row e), nat (col e)) \<in> grid_index (grid self) ` set new"
      then obtain p where p: "p \<in> set new" "grid_index (grid self) p = Inr (nat (row e), nat (col e))"
        by force
      with inb have pb: "in_bounds self p" by (simp add: list_all_iff)
      with wf have "grid_index (grid self) p = Inr (nat (row p), nat (col p))"
        by (intro grid_index_in_bounds) simp_all
      with p(2) have "nat (row p) = nat (row e)" "nat (col p) = nat (col e)" by simp_all
      moreover from pb e(2) have "0 \<le> row p" "0 \<le> row e" "0 \<le> col p" "0 \<le> col e"
        by (simp_all add: in_bounds_def)
      ultimately have "row p = row e" "col p = col e" by (simp_all add: eq_nat_nat_iff)
      then have "p = e" by simp
      with p(1) n(2) e(1) show False by blast
    qed
    with n(4) rg have "grid self' ! nat (row e) ! nat (col e) = grid self ! nat (row e) ! nat (col e)"
      by simp
    moreover have "grid_index (grid self') e = grid_index (grid self) e"
      using n(3) by (rule grid_index_shape)
    ultimately show "grid_get (grid self') e = grid_get (grid self) e"
      by (simp add: grid_get_def gi)
  qed
qed

theorem exit_check_precedes_visited_check_witness:
  "find_path_aux (Suc 0) \<lparr>START_POSITION = CHR ''P'', EXIT = CHR ''E'', WALL = CHR ''#'', SPOOKY_HOLLOW = CHR ''S'', MYSTICAL_HOLLOW = CHR ''M'', OTHER = [CHR '' '']\<rparr>
     \<lparr>start_position = \<lparr>row = 1, col = 0\<rparr>, end_positions = [\<lparr>row = 2, col = 1\<rparr>], rows = 3, cols = 2, grid =
  [[\<lparr>tile = Tile_str (CHR '' ''), position = \<lparr>row = 0, col = 0\<rparr>, visited = False\<rparr>, \<lparr>tile = Tile_str (CHR ''#''), position = \<lparr>row = 0, col = 1\<rparr>, visited = False\<rparr>],
   [\<lparr>tile = Tile_str (CHR ''P''), position = \<lparr>row = 1, col = 0\<rparr>, visited = False\<rparr>, \<lparr>tile = Tile_str (CHR ''#''), position = \<lparr>row = 1, col = 1\<rparr>, visited = False\<rparr>],
   [\<lparr>tile = Tile_str (CHR '' ''), position = \<lparr>row = 2, col = 0\<rparr>, visited = False\<rparr>, \<lparr>tile = Tile_str (CHR ''E''), position = \<lparr>row = 2, col = 1\<rparr>, visited = False\<rparr>]]\<rparr>
     \<lparr>row = 2, col = 1\<rparr> [\<lparr>row = 1, col = 0\<rparr>] [\<lparr>row = 1, col = 0\<rparr>] =
     Returned (Some ([\<lparr>row = 1, col = 0\<rparr>] @ [\<lparr>row = 2, col = 1\<rparr>]))
     \<lparr>start_position = \<lparr>row = 1, col = 0\<rparr>, end_positions = [\<lparr>row = 2, col = 1\<rparr>], rows = 3, cols = 2, grid =
  [[\<lparr>tile = Tile_str (CHR '' ''), position = \<lparr>row = 0, col = 0\<rparr>, visited = False\<rparr>, \<lparr>tile = Tile_str (CHR ''#''), position = \<lparr>row = 0, col = 1\<rparr>, visited = False\<rparr>],
   [\<lparr>tile = Tile_str (CHR ''P''), position = \<lparr>row = 1, col = 0\<rparr>, visited = False\<rparr>, \<lparr>tile = Tile_str (CHR ''#''), position = \<lparr>row = 1, col = 1\<rparr>, visited = False\<rparr>],
   [\<lparr>tile = Tile_str (CHR '' ''), position = \<lparr>row = 2, col = 0\<rparr>, visited = False\<rparr>, \<lparr>tile = Tile_str (CHR ''E''), position = \<lparr>row = 2, col = 1\<rparr>, visited = False\<rparr>]]\<rparr>
     ([\<lparr>row = 1, col = 0\<rparr>] @ [\<lparr>row = 2, col = 1\<rparr>]) [\<lparr>row = 1, col = 0\<rparr>] \<and>
   find_way_out \<lparr>START_POSITION = CHR ''P'', EXIT = CHR ''E'', WALL = CHR ''#'', SPOOKY_HOLLOW = CHR ''S'', MYSTICAL_HOLLOW = CHR ''M'', OTHER = [CHR '' '']\<rparr>
     \<lparr>start_position = \<lparr>row = 1, col = 0\<rparr>, end_positions = [\<lparr>row = 2, col = 1\<rparr>, \<lparr>row = 1, col = 0\<rparr>], rows = 3, cols = 2, grid =
  [[\<lparr>tile = Tile_str (CHR '' ''), position = \<lparr>row = 0, col = 0\<rparr>, visited = False\<rparr>, \<lparr>tile = Tile_str (CHR ''#''), position = \<lparr>row = 0, col = 1\<rparr>, visited = False\<rparr>],
   [\<lparr>tile = Tile_str (CHR ''P''), position = \<lparr>row = 1, col = 0\<rparr>, visited = False\<rparr>, \<lparr>tile = Tile_str (CHR ''#''), position = \<lparr>row = 1, col = 1\<rparr>, visited = False\<rparr>],
   [\<lparr>tile = Tile_str (CHR '' ''), position = \<lparr>row = 2, col = 0\<rparr>, visited = False\<rparr>, \<lparr>tile = Tile_str (CHR ''E''), position = \<lparr>row = 2, col = 1\<rparr>, visited = False\<rparr>]]\<rparr> =
     Returned (Some [start_position
     \<lparr>start_position = \<lparr>row = 1, col = 0\<rparr>, end_positions = [\<lparr>row = 2, col = 1\<rparr>, \<lparr>row = 1, col = 0\<rparr>], rows = 3, cols = 2, grid =
  [[\<lparr>tile = Tile_str (CHR '' ''), position = \<lparr>row = 0, col = 0\<rparr>, visited = False\<rparr>, \<lparr>tile = Tile_str (CHR ''#''), position = \<lparr>row = 0, col = 1\<rparr>, visited = False\<rparr>],
   [\<lparr>tile = Tile_str (CHR ''P''), position = \<lparr>row = 1, col = 0\<rparr>, visited = False\<rparr>, \<lparr>tile = Tile_str (CHR ''#''), position = \<lparr>row = 1, col = 1\<rparr>, visited = False\<rparr>],
   [\<lparr>tile = Tile_str (CHR '' ''), position = \<lparr>row = 2, col = 0\<rparr>, visited = False\<rparr>, \<lparr>tile = Tile_str (CHR ''E''), position = \<lparr>row = 2, col = 1\<rparr>, visited = False\<rparr>]]\<rparr>])
     \<lparr>start_position = \<lparr>row = 1, col = 0\<rparr>, end_positions = [\<lparr>row = 2, col = 1\<rparr>, \<lparr>row = 1, col = 0\<rparr>], rows = 3, cols = 2, grid =
  [[\<lparr>tile = Tile_str (CHR '' ''), position = \<lparr>row = 0, col = 0\<rparr>, visited = False\<rparr>, \<lparr>tile = Tile_str (CHR ''#''), position = \<lparr>row = 0, col = 1\<rparr>, visited = False\<rparr>],
   [\<lparr>tile = Tile_str (CHR ''P''), position = \<lparr>row = 1, col = 0\<rparr>, visited = False\<rparr>, \<lparr>tile = Tile_str (CHR ''#''), position = \<lparr>row = 1, col = 1\<rparr>, visited = False\<rparr>],
   [\<lparr>tile = Tile_str (CHR '' ''), position = \<lparr>row = 2, col = 0\<rparr>, visited = False\<rparr>, \<lparr>tile = Tile_str (CHR ''E''), position = \<lparr>row = 2, col = 1\<rparr>, visited = False\<rparr>]]\<rparr>
     [start_position
     \<lparr>start_position = \<lparr>row = 1, col = 0\<rparr>, end_positions = [\<lparr>row = 2, col = 1\<rparr>, \<lparr>row = 1, col = 0\<rparr>], rows = 3, cols = 2, grid =
  [[\<lparr>tile = Tile_str (CHR '' ''), position = \<lparr>row = 0, col = 0\<rparr>, visited = False\<rparr>, \<lparr>tile = Tile_str (CHR ''#''), position = \<lparr>row = 0, col = 1\<rparr>, visited = False\<rparr>],
   [\<lparr>tile = Tile_str (CHR ''P''), position = \<lparr>row = 1, col = 0\<rparr>, visited = False\<rparr>, \<lparr>tile = Tile_str (CHR ''#''), position = \<lparr>row = 1, col = 1\<rparr>, visited = False\<rparr>],
   [\<lparr>tile = Tile_str (CHR '' ''), position = \<lparr>row = 2, col = 0\<rparr>, visited = False\<rparr>, \<lparr>tile = Tile_str (CHR ''E''), position = \<lparr>row = 2, col = 1\<rparr>, visited = False\<rparr>]]\<rparr>] [] \<and>
   grid_get (grid
     \<lparr>start_position = \<lparr>row = 1, col = 0\<rparr>, end_positions = [\<lparr>row = 2, col = 1\<rparr>], rows = 3, cols = 2, grid =
  [[\<lparr>tile = Tile_str (CHR '' ''), position = \<lparr>row = 0, col = 0\<rparr>, visited = True\<rparr>, \<lparr>tile = Tile_str (CHR ''#''), position = \<lparr>row = 0, col = 1\<rparr>, visited = False\<rparr>],
   [\<lparr>tile = Tile_str (CHR ''P''), position = \<lparr>row = 1, col = 0\<rparr>, visited = True\<rparr>, \<lparr>tile = Tile_str (CHR ''#''), position = \<lparr>row = 1, col = 1\<rparr>, visited = False\<rparr>],
   [\<lparr>tile = Tile_str (CHR '' ''), position = \<lparr>row = 2, col = 0\<rparr>, visited = True\<rparr>, \<lparr>tile = Tile_str (CHR ''E''), position = \<lparr>row = 2, col = 1\<rparr>, visited = False\<rparr>]]\<rparr>) \<lparr>row = 2, col = 1\<rparr> =
   grid_get (grid
     \<lparr>start_position = \<lparr>row = 1, col = 0\<rparr>, end_positions = [\<lparr>row = 2, col = 1\<rparr>], rows = 3, cols = 2, grid =
  [[\<lparr>tile = Tile_str (CHR '' ''), position = \<lparr>row = 0, col = 0\<rparr>, visited = False\<rparr>, \<lparr>tile = Tile_str (CHR ''#''), position = \<lparr>row = 0, col = 1\<rparr>, visited = False\<rparr>],
   [\<lparr>tile = Tile_str (CHR ''P''), position = \<lparr>row = 1, col = 0\<rparr>, visited = False\<rparr>, \<lparr>tile = Tile_str (CHR ''#''), position = \<lparr>row = 1, col = 1\<rparr>, visited = False\<rparr>],
   [\<lparr>tile = Tile_str (CHR '' ''), position = \<lparr>row = 2, col = 0\<rparr>, visited = False\<rparr>, \<lparr>tile = Tile_str (CHR ''E''), position = \<lparr>row = 2, col = 1\<rparr>, visited = False\<rparr>]]\<rparr>) \<lparr>row = 2, col = 1\<rparr>"
proof -
  have a: "find_path_aux (Suc 0) \<lparr>START_POSITION = CHR ''P'', EXIT = CHR ''E'', WALL = CHR ''#'', SPOOKY_HOLLOW = CHR ''S'', MYSTICAL_HOLLOW = CHR ''M'', OTHER = [CHR '' '']\<rparr>
     \<lparr>start_position = \<lparr>row = 1, col = 0\<rparr>, end_positions = [\<lparr>row = 2, col = 1\<rparr>], rows = 3, cols = 2, grid =
  [[\<lparr>tile = Tile_str (CHR '' ''), position = \<lparr>row = 0, col = 0\<rparr>, visited = False\<rparr>, \<lparr>tile = Tile_str (CHR ''#''), position = \<lparr>row = 0, col = 1\<rparr>, visited = False\<rparr>],
   [\<lparr>tile = Tile_str (CHR ''P''), position = \<lparr>row = 1, col = 0\<rparr>, visited = False\<rparr>, \<lparr>tile = Tile_str (CHR ''#''), position = \<lparr>row = 1, col = 1\<rparr>, visited = False\<rparr>],
   [\<lparr>tile = Tile_str (CHR '' ''), position = \<lparr>row = 2, col = 0\<rparr>, visited = False\<rparr>, \<lparr>tile = Tile_str (CHR ''E''), position = \<lparr>row = 2, col = 1\<rparr>, visited = False\<rparr>]]\<rparr>
     \<lparr>row = 2, col = 1\<rparr> [\<lparr>row = 1, col = 0\<rparr>] [\<lparr>row = 1, col = 0\<rparr>] =
     Returned (Some ([\<lparr>row = 1, col = 0\<rparr>] @ [\<lparr>row = 2, col = 1\<rparr>]))
     \<lparr>start_position = \<lparr>row = 1, col = 0\<rparr>, end_positions = [\<lparr>row = 2, col = 1\<rparr>], rows = 3, cols = 2, grid =
  [[\<lparr>tile = Tile_str (CHR '' ''), position = \<lparr>row = 0, col = 0\<rparr>, visited = False\<rparr>, \<lparr>tile = Tile_str (CHR ''#''), position = \<lparr>row = 0, col = 1\<rparr>, visited = False\<rparr>],
   [\<lparr>tile = Tile_str (CHR ''P''), position = \<lparr>row = 1, col = 0\<rparr>, visited = False\<rparr>, \<lparr>tile = Tile_str (CHR ''#''), position = \<lparr>row = 1, col = 1\<rparr>, visited = False\<rparr>],
   [\<lparr>tile = Tile_str (CHR '' ''), position = \<lparr>row = 2, col = 0\<rparr>, visited = False\<rparr>, \<lparr>tile = Tile_str (CHR ''E''), position = \<lparr>row = 2, col = 1\<rparr>, visited = False\<rparr>]]\<rparr>
     ([\<lparr>row = 1, col = 0\<rparr>] @ [\<lparr>row = 2, col = 1\<rparr>]) [\<lparr>row = 1, col = 0\<rparr>]"
    using exit_check_precedes_visited_check[where cur = "\<lparr>row = 2, col = 1\<rparr>" and self =
     "\<lparr>start_position = \<lparr>row = 1, col = 0\<rparr>, end_positions = [\<lparr>row = 2, col = 1\<rparr>], rows = 3, cols = 2, grid =
  [[\<lparr>tile = Tile_str (CHR '' ''), position = \<lparr>row = 0, col = 0\<rparr>, visited = False\<rparr>, \<lparr>tile = Tile_str (CHR ''#''), position = \<lparr>row = 0, col = 1\<rparr>, visited = False\<rparr>],
   [\<lparr>tile = Tile_str (CHR ''P''), position = \<lparr>row = 1, col = 0\<rparr>, visited = False\<rparr>, \<lparr>tile = Tile_str (CHR ''#''), position = \<lparr>row = 1, col = 1\<rparr>, visited = False\<rparr>],
   [\<lparr>tile = Tile_str (CHR '' ''), position = \<lparr>row = 2, col = 0\<rparr>, visited = False\<rparr>, \<lparr>tile = Tile_str (CHR ''E''), position = \<lparr>row = 2, col = 1\<rparr>, visited = False\<rparr>]]\<rparr>" and n = 0 and T =
     "\<lparr>START_POSITION = CHR ''P'', EXIT = CHR ''E'', WALL = CHR ''#'', SPOOKY_HOLLOW = CHR ''S'', MYSTICAL_HOLLOW = CHR ''M'', OTHER = [CHR '' '']\<rparr>" and path = "[\<lparr>row = 1, col = 0\<rparr>]" and ex = "[\<lparr>row = 1, col = 0\<rparr>]"]
    by simp
  have b: "find_way_out \<lparr>START_POSITION = CHR ''P'', EXIT = CHR ''E'', WALL = CHR ''#'', SPOOKY_HOLLOW = CHR ''S'', MYSTICAL_HOLLOW = CHR ''M'', OTHER = [CHR '' '']\<rparr>
     \<lparr>start_position = \<lparr>row = 1, col = 0\<rparr>, end_positions = [\<lparr>row = 2, col = 1\<rparr>, \<lparr>row = 1, col = 0\<rparr>], rows = 3, cols = 2, grid =
  [[\<lparr>tile = Tile_str (CHR '' ''), position = \<lparr>row = 0, col = 0\<rparr>, visited = False\<rparr>, \<lparr>tile = Tile_str (CHR ''#''), position = \<lparr>row = 0, col = 1\<rparr>, visited = False\<rparr>],
   [\<lparr>tile = Tile_str (CHR ''P''), position = \<lparr>row = 1, col = 0\<rparr>, visited = False\<rparr>, \<lparr>tile = Tile_str (CHR ''#''), position = \<lparr>row = 1, col = 1\<rparr>, visited = False\<rparr>],
   [\<lparr>tile = Tile_str (CHR '' ''), position = \<lparr>row = 2, col = 0\<rparr>, visited = False\<rparr>, \<lparr>tile = Tile_str (CHR ''E''), position = \<lparr>row = 2, col = 1\<rparr>, visited = False\<rparr>]]\<rparr> =
     Returned (Some [start_position
     \<lparr>start_position = \<lparr>row = 1, col = 0\<rparr>, end_positions = [\<lparr>row = 2, col = 1\<rparr>, \<lparr>row = 1, col = 0\<rparr>], rows = 3, cols = 2, grid =
  [[\<lparr>tile = Tile_str (CHR '' ''), position = \<lparr>row = 0, col = 0\<rparr>, visited = False\<rparr>, \<lparr>tile = Tile_str (CHR ''#''), position = \<lparr>row = 0, col = 1\<rparr>, visited = False\<rparr>],
   [\<lparr>tile = Tile_str (CHR ''P''), position = \<lparr>row = 1, col = 0\<rparr>, visited = False\<rparr>, \<lparr>tile = Tile_str (CHR ''#''), position = \<lparr>row = 1, col = 1\<rparr>, visited = False\<rparr>],
   [\<lparr>tile = Tile_str (CHR '' ''), position = \<lparr>row = 2, col = 0\<rparr>, visited = False\<rparr>, \<lparr>tile = Tile_str (CHR ''E''), position = \<lparr>row = 2, col = 1\<rparr>, visited = False\<rparr>]]\<rparr>])
     \<lparr>start_position = \<lparr>row = 1, col = 0\<rparr>, end_positions = [\<lparr>row = 2, col = 1\<rparr>, \<lparr>row = 1, col = 0\<rparr>], rows = 3, cols = 2, grid =
  [[\<lparr>tile = Tile_str (CHR '' ''), position = \<lparr>row = 0, col = 0\<rparr>, visited = False\<rparr>, \<lparr>tile = Tile_str (CHR ''#''), position = \<lparr>row = 0, col = 1\<rparr>, visited = False\<rparr>],
   [\<lparr>tile = Tile_str (CHR ''P''), position = \<lparr>row = 1, col = 0\<rparr>, visited = False\<rparr>, \<lparr>tile = Tile_str (CHR ''#''), position = \<lparr>row = 1, col = 1\<rparr>, visited = False\<rparr>],
   [\<lparr>tile = Tile_str (CHR '' ''), position = \<lparr>row = 2, col = 0\<rparr>, visited = False\<rparr>, \<lparr>tile = Tile_str (CHR ''E''), position = \<lparr>row = 2, col = 1\<rparr>, visited = False\<rparr>]]\<rparr>
     [start_position
     \<lparr>start_position = \<lparr>row = 1, col = 0\<rparr>, end_positions = [\<lparr>row = 2, col = 1\<rparr>, \<lparr>row = 1, col = 0\<rparr>], rows = 3, cols = 2, grid =
  [[\<lparr>tile = Tile_str (CHR '' ''), position = \<lparr>row = 0, col = 0\<rparr>, visited = False\<rparr>, \<lparr>tile = Tile_str (CHR ''#''), position = \<lparr>row = 0, col = 1\<rparr>, visited = False\<rparr>],
   [\<lparr>tile = Tile_str (CHR ''P''), position = \<lparr>row = 1, col = 0\<rparr>, visited = False\<rparr>, \<lparr>tile = Tile_str (CHR ''#''), position = \<lparr>row = 1, col = 1\<rparr>, visited = False\<rparr>],
   [\<lparr>tile = Tile_str (CHR '' ''), position = \<lparr>row = 2, col = 0\<rparr>, visited = False\<rparr>, \<lparr>tile = Tile_str (CHR ''E''), position = \<lparr>row = 2, col = 1\<rparr>, visited = False\<rparr>]]\<rparr>] []"
    using exit_check_precedes_visited_check[where self =
     "\<lparr>start_position = \<lparr>row = 1, col = 0\<rparr>, end_positions = [\<lparr>row = 2, col = 1\<rparr>, \<lparr>row = 1, col = 0\<rparr>], rows = 3, cols = 2, grid =
  [[\<lparr>tile = Tile_str (CHR '' ''), position = \<lparr>row = 0, col = 0\<rparr>, visited = False\<rparr>, \<lparr>tile = Tile_str (CHR ''#''), position = \<lparr>row = 0, col = 1\<rparr>, visited = False\<rparr>],
   [\<lparr>tile = Tile_str (CHR ''P''), position = \<lparr>row = 1, col = 0\<rparr>, visited = False\<rparr>, \<lparr>tile = Tile_str (CHR ''#''), position = \<lparr>row = 1, col = 1\<rparr>, visited = False\<rparr>],
   [\<lparr>tile = Tile_str (CHR '' ''), position = \<lparr>row = 2, col = 0\<rparr>, visited = False\<rparr>, \<lparr>tile = Tile_str (CHR ''E''), position = \<lparr>row = 2, col = 1\<rparr>, visited = False\<rparr>]]\<rparr>" and T =
     "\<lparr>START_POSITION = CHR ''P'', EXIT = CHR ''E'', WALL = CHR ''#'', SPOOKY_HOLLOW = CHR ''S'', MYSTICAL_HOLLOW = CHR ''M'', OTHER = [CHR '' '']\<rparr>"]
    by simp
  have "find_way_out
     \<lparr>START_POSITION = CHR ''P'', EXIT = CHR ''E'', WALL = CHR ''#'', SPOOKY_HOLLOW = CHR ''S'', MYSTICAL_HOLLOW = CHR ''M'', OTHER = [CHR '' '']\<rparr>
     \<lparr>start_position = \<lparr>row = 1, col = 0\<rparr>, end_positions = [\<lparr>row = 2, col = 1\<rparr>], rows = 3, cols = 2, grid =
  [[\<lparr>tile = Tile_str (CHR '' ''), position = \<lparr>row = 0, col = 0\<rparr>, visited = False\<rparr>, \<lparr>tile = Tile_str (CHR ''#''), position = \<lparr>row = 0, col = 1\<rparr>, visited = False\<rparr>],
   [\<lparr>tile = Tile_str (CHR ''P''), position = \<lparr>row = 1, col = 0\<rparr>, visited = False\<rparr>, \<lparr>tile = Tile_str (CHR ''#''), position = \<lparr>row = 1, col = 1\<rparr>, visited = False\<rparr>],
   [\<lparr>tile = Tile_str (CHR '' ''), position = \<lparr>row = 2, col = 0\<rparr>, visited = False\<rparr>, \<lparr>tile = Tile_str (CHR ''E''), position = \<lparr>row = 2, col = 1\<rparr>, visited = False\<rparr>]]\<rparr> = Returned (Some [\<lparr>row = 1, col = 0\<rparr>, \<lparr>row = 2, col = 0\<rparr>, \<lparr>row = 2, col = 1\<rparr>])
     \<lparr>start_position = \<lparr>row = 1, col = 0\<rparr>, end_positions = [\<lparr>row = 2, col = 1\<rparr>], rows = 3, cols = 2, grid =
  [[\<lparr>tile = Tile_str (CHR '' ''), position = \<lparr>row = 0, col = 0\<rparr>, visited = True\<rparr>, \<lparr>tile = Tile_str (CHR ''#''), position = \<lparr>row = 0, col = 1\<rparr>, visited = False\<rparr>],
   [\<lparr>tile = Tile_str (CHR ''P''), position = \<lparr>row = 1, col = 0\<rparr>, visited = True\<rparr>, \<lparr>tile = Tile_str (CHR ''#''), position = \<lparr>row = 1, col = 1\<rparr>, visited = False\<rparr>],
   [\<lparr>tile = Tile_str (CHR '' ''), position = \<lparr>row = 2, col = 0\<rparr>, visited = True\<rparr>, \<lparr>tile = Tile_str (CHR ''E''), position = \<lparr>row = 2, col = 1\<rparr>, visited = False\<rparr>]]\<rparr>
     [\<lparr>row = 1, col = 0\<rparr>, \<lparr>row = 2, col = 0\<rparr>, \<lparr>row = 2, col = 1\<rparr>] [\<lparr>row = 1, col = 0\<rparr>, \<lparr>row = 0, col = 0\<rparr>, \<lparr>row = 2, col = 0\<rparr>]"
    by code_simp
  then have run: "find_path_aux (Suc (length (concat (grid
     \<lparr>start_position = \<lparr>row = 1, col = 0\<rparr>, end_positions = [\<lparr>row = 2, col = 1\<rparr>], rows = 3, cols = 2, grid =
  [[\<lparr>tile = Tile_str (CHR '' ''), position = \<lparr>row = 0, col = 0\<rparr>, visited = False\<rparr>, \<lparr>tile = Tile_str (CHR ''#''), position = \<lparr>row = 0, col = 1\<rparr>, visited = False\<rparr>],
   [\<lparr>tile = Tile_str (CHR ''P''), position = \<lparr>row = 1, col = 0\<rparr>, visited = False\<rparr>, \<lparr>tile = Tile_str (CHR ''#''), position = \<lparr>row = 1, col = 1\<rparr>, visited = False\<rparr>],
   [\<lparr>tile = Tile_str (CHR '' ''), position = \<lparr>row = 2, col = 0\<rparr>, visited = False\<rparr>, \<lparr>tile = Tile_str (CHR ''E''), position = \<lparr>row = 2, col = 1\<rparr>, visited = False\<rparr>]]\<rparr>)))) \<lparr>START_POSITION = CHR ''P'', EXIT = CHR ''E'', WALL = CHR ''#'', SPOOKY_HOLLOW = CHR ''S'', MYSTICAL_HOLLOW = CHR ''M'', OTHER = [CHR '' '']\<rparr>
     \<lparr>start_position = \<lparr>row = 1, col = 0\<rparr>, end_positions = [\<lparr>row = 2, col = 1\<rparr>], rows = 3, cols = 2, grid =
  [[\<lparr>tile = Tile_str (CHR '' ''), position = \<lparr>row = 0, col = 0\<rparr>, visited = False\<rparr>, \<lparr>tile = Tile_str (CHR ''#''), position = \<lparr>row = 0, col = 1\<rparr>, visited = False\<rparr>],
   [\<lparr>tile = Tile_str (CHR ''P''), position = \<lparr>row = 1, col = 0\<rparr>, visited = False\<rparr>, \<lparr>tile = Tile_str (CHR ''#''), position = \<lparr>row = 1, col = 1\<rparr>, visited = False\<rparr>],
   [\<lparr>tile = Tile_str (CHR '' ''), position = \<lparr>row = 2, col = 0\<rparr>, visited = False\<rparr>, \<lparr>tile = Tile_str (CHR ''E''), position = \<lparr>row = 2, col = 1\<rparr>, visited = False\<rparr>]]\<rparr>
     (start_position
     \<lparr>start_position = \<lparr>row = 1, col = 0\<rparr>, end_positions = [\<lparr>row = 2, col = 1\<rparr>], rows = 3, cols = 2, grid =
  [[\<lparr>tile = Tile_str (CHR '' ''), position = \<lparr>row = 0, col = 0\<rparr>, visited = False\<rparr>, \<lparr>tile = Tile_str (CHR ''#''), position = \<lparr>row = 0, col = 1\<rparr>, visited = False\<rparr>],
   [\<lparr>tile = Tile_str (CHR ''P''), position = \<lparr>row = 1, col = 0\<rparr>, visited = False\<rparr>, \<lparr>tile = Tile_str (CHR ''#''), position = \<lparr>row = 1, col = 1\<rparr>, visited = False\<rparr>],
   [\<lparr>tile = Tile_str (CHR '' ''), position = \<lparr>row = 2, col = 0\<rparr>, visited = False\<rparr>, \<lparr>tile = Tile_str (CHR ''E''), position = \<lparr>row = 2, col = 1\<rparr>, visited = False\<rparr>]]\<rparr>) [] [] = Returned (Some [\<lparr>row = 1, col = 0\<rparr>, \<lparr>row = 2, col = 0\<rparr>, \<lparr>row = 2, col = 1\<rparr>])
     \<lparr>start_position = \<lparr>row = 1, col = 0\<rparr>, end_positions = [\<lparr>row = 2, col = 1\<rparr>], rows = 3, cols = 2, grid =
  [[\<lparr>tile = Tile_str (CHR '' ''), position = \<lparr>row = 0, col = 0\<rparr>, visited = True\<rparr>, \<lparr>tile = Tile_str (CHR ''#''), position = \<lparr>row = 0, col = 1\<rparr>, visited = False\<rparr>],
   [\<lparr>tile = Tile_str (CHR ''P''), position = \<lparr>row = 1, col = 0\<rparr>, visited = True\<rparr>, \<lparr>tile = Tile_str (CHR ''#''), position = \<lparr>row = 1, col = 1\<rparr>, visited = False\<rparr>],
   [\<lparr>tile = Tile_str (CHR '' ''), position = \<lparr>row = 2, col = 0\<rparr>, visited = True\<rparr>, \<lparr>tile = Tile_str (CHR ''E''), position = \<lparr>row = 2, col = 1\<rparr>, visited = False\<rparr>]]\<rparr>
     [\<lparr>row = 1, col = 0\<rparr>, \<lparr>row = 2, col = 0\<rparr>, \<lparr>row = 2, col = 1\<rparr>] [\<lparr>row = 1, col = 0\<rparr>, \<lparr>row = 0, col = 0\<rparr>, \<lparr>row = 2, col = 0\<rparr>]"
    unfolding find_way_out_def .
  have c: "grid_get (grid
     \<lparr>start_position = \<lparr>row = 1, col = 0\<rparr>, end_positions = [\<lparr>row = 2, col = 1\<rparr>], rows = 3, cols = 2, grid =
  [[\<lparr>tile = Tile_str (CHR '' ''), position = \<lparr>row = 0, col = 0\<rparr>, visited = True\<rparr>, \<lparr>tile = Tile_str (CHR ''#''), position = \<lparr>row = 0, col = 1\<rparr>, visited = False\<rparr>],
   [\<lparr>tile = Tile_str (CHR ''P''), position = \<lparr>row = 1, col = 0\<rparr>, visited = True\<rparr>, \<lparr>tile = Tile_str (CHR ''#''), position = \<lparr>row = 1, col = 1\<rparr>, visited = False\<rparr>],
   [\<lparr>tile = Tile_str (CHR '' ''), position = \<lparr>row = 2, col = 0\<rparr>, visited = True\<rparr>, \<lparr>tile = Tile_str (CHR ''E''), position = \<lparr>row = 2, col = 1\<rparr>, visited = False\<rparr>]]\<rparr>) \<lparr>row = 2, col = 1\<rparr> =
   grid_get (grid
     \<lparr>start_position = \<lparr>row = 1, col = 0\<rparr>, end_positions = [\<lparr>row = 2, col = 1\<rparr>], rows = 3, cols = 2, grid =
  [[\<lparr>tile = Tile_str (CHR '' ''), position = \<lparr>row = 0, col = 0\<rparr>, visited = False\<rparr>, \<lparr>tile = Tile_str (CHR ''#''), position = \<lparr>row = 0, col = 1\<rparr>, visited = False\<rparr>],
   [\<lparr>tile = Tile_str (CHR ''P''), position = \<lparr>row = 1, col = 0\<rparr>, visited = False\<rparr>, \<lparr>tile = Tile_str (CHR ''#''), position = \<lparr>row = 1, col = 1\<rparr>, visited = False\<rparr>],
   [\<lparr>tile = Tile_str (CHR '' ''), position = \<lparr>row = 2, col = 0\<rparr>, visited = False\<rparr>, \<lparr>tile = Tile_str (CHR ''E''), position = \<lparr>row = 2, col = 1\<rparr>, visited = False\<rparr>]]\<rparr>) \<lparr>row = 2, col = 1\<rparr>"
    using exit_check_precedes_visited_check[where self =
     "\<lparr>start_position = \<lparr>row = 1, col = 0\<rparr>, end_positions = [\<lparr>row = 2, col = 1\<rparr>], rows = 3, cols = 2, grid =
  [[\<lparr>tile = Tile_str (CHR '' ''), position = \<lparr>row = 0, col = 0\<rparr>, visited = False\<rparr>, \<lparr>tile = Tile_str (CHR ''#''), position = \<lparr>row = 0, col = 1\<rparr>, visited = False\<rparr>],
   [\<lparr>tile = Tile_str (CHR ''P''), position = \<lparr>row = 1, col = 0\<rparr>, visited = False\<rparr>, \<lparr>tile = Tile_str (CHR ''#''), position = \<lparr>row = 1, col = 1\<rparr>, visited = False\<rparr>],
   [\<lparr>tile = Tile_str (CHR '' ''), position = \<lparr>row = 2, col = 0\<rparr>, visited = False\<rparr>, \<lparr>tile = Tile_str (CHR ''E''), position = \<lparr>row = 2, col = 1\<rparr>, visited = False\<rparr>]]\<rparr>" and T =
     "\<lparr>START_POSITION = CHR ''P'', EXIT = CHR ''E'', WALL = CHR ''#'', SPOOKY_HOLLOW = CHR ''S'', MYSTICAL_HOLLOW = CHR ''M'', OTHER = [CHR '' '']\<rparr>" and k =
     "Suc (length (concat (grid
     \<lparr>start_position = \<lparr>row = 1, col = 0\<rparr>, end_positions = [\<lparr>row = 2, col = 1\<rparr>], rows = 3, cols = 2, grid =
  [[\<lparr>tile = Tile_str (CHR '' ''), position = \<lparr>row = 0, col = 0\<rparr>, visited = False\<rparr>, \<lparr>tile = Tile_str (CHR ''#''), position = \<lparr>row = 0, col = 1\<rparr>, visited = False\<rparr>],
   [\<lparr>tile = Tile_str (CHR ''P''), position = \<lparr>row = 1, col = 0\<rparr>, visited = False\<rparr>, \<lparr>tile = Tile_str (CHR ''#''), position = \<lparr>row = 1, col = 1\<rparr>, visited = False\<rparr>],
   [\<lparr>tile = Tile_str (CHR '' ''), position = \<lparr>row = 2, col = 0\<rparr>, visited = False\<rparr>, \<lparr>tile = Tile_str (CHR ''E''), position = \<lparr>row = 2, col = 1\<rparr>, visited = False\<rparr>]]\<rparr>)))" and cur =
     "start_position
     \<lparr>start_position = \<lparr>row = 1, col = 0\<rparr>, end_positions = [\<lparr>row = 2, col = 1\<rparr>], rows = 3, cols = 2, grid =
  [[\<lparr>tile = Tile_str (CHR '' ''), position = \<lparr>row = 0, col = 0\<rparr>, visited = False\<rparr>, \<lparr>tile = Tile_str (CHR ''#''), position = \<lparr>row = 0, col = 1\<rparr>, visited = False\<rparr>],
   [\<lparr>tile = Tile_str (CHR ''P''), position = \<lparr>row = 1, col = 0\<rparr>, visited = False\<rparr>, \<lparr>tile = Tile_str (CHR ''#''), position = \<lparr>row = 1, col = 1\<rparr>, visited = False\<rparr>],
   [\<lparr>tile = Tile_str (CHR '' ''), position = \<lparr>row = 2, col = 0\<rparr>, visited = False\<rparr>, \<lparr>tile = Tile_str (CHR ''E''), position = \<lparr>row = 2, col = 1\<rparr>, visited = False\<rparr>]]\<rparr>" and path = "[]" and ex = "[]" and r = "Some [\<lparr>row = 1, col = 0\<rparr>, \<lparr>row = 2, col = 0\<rparr>, \<lparr>row = 2, col = 1\<rparr>]" and self' =
     "\<lparr>start_position = \<lparr>row = 1, col = 0\<rparr>, end_positions = [\<lparr>row = 2, col = 1\<rparr>], rows = 3, cols = 2, grid =
  [[\<lparr>tile = Tile_str (CHR '' ''), position = \<lparr>row = 0, col = 0\<rparr>, visited = True\<rparr>, \<lparr>tile = Tile_str (CHR ''#''), position = \<lparr>row = 0, col = 1\<rparr>, visited = False\<rparr>],
   [\<lparr>tile = Tile_str (CHR ''P''), position = \<lparr>row = 1, col = 0\<rparr>, visited = True\<rparr>, \<lparr>tile = Tile_str (CHR ''#''), position = \<lparr>row = 1, col = 1\<rparr>, visited = False\<rparr>],
   [\<lparr>tile = Tile_str (CHR '' ''), position = \<lparr>row = 2, col = 0\<rparr>, visited = True\<rparr>, \<lparr>tile = Tile_str (CHR ''E''), position = \<lparr>row = 2, col = 1\<rparr>, visited = False\<rparr>]]\<rparr>" and path' =
     "[\<lparr>row = 1, col = 0\<rparr>, \<lparr>row = 2, col = 0\<rparr>, \<lparr>row = 2, col = 1\<rparr>]" and ex' = "[\<lparr>row = 1, col = 0\<rparr>, \<lparr>row = 0, col = 0\<rparr>, \<lparr>row = 2, col = 0\<rparr>]"] run
    by (simp add: grid_shape_def in_bounds_def)
  from a b c show ?thesis by (intro conjI)
qed

text \<open>
  C8: when the hollows on the path satisfy their invariants, \<^verbatim>\<open>take_treasures\<close> returns
  without raising and does what the walk of the spec does: it goes through the cells in path
  order, asks the hollow of each hollow-bearing cell for its best treasure under the
  remaining capacity, on success appends the treasure and decreases the remaining capacity
  by its weight, on failure goes on. It returns the collected list, or None when the list is
  empty, and the total weight of a returned list is at most the initial capacity.
\<close>

theorem take_treasures_within_capacity:
  assumes "path_hollows_inv st path"
  shows "\<exists>ts st'. path_treasure_walk st path cap = Inr (ts, st') \<and>
           take_treasures st path cap = Inr (if ts = [] then None else Some ts, st') \<and>
           path_hollows_inv st' path \<and>
           (ts \<noteq> [] \<longrightarrow> sum_list (map weight ts) \<le> cap)"
proof -
  from take_treasures_loop_walk[OF assms, of cap "[]"] obtain ts st' where
    r: "take_treasures_loop st path cap [] = Inr ([] @ ts, st')"
    "path_treasure_walk st path cap = Inr (ts, st')"
    "\<forall>q. hollow_inv (st q) \<longrightarrow> hollow_inv (st' q)"
    "ts \<noteq> [] \<longrightarrow> sum_list (map weight ts) \<le> cap" by blast
  have "take_treasures st path cap = Inr (if ts = [] then None else Some ts, st')"
    using r(1) by (simp add: take_treasures_def)
  moreover have "path_hollows_inv st' path" using assms r(3) by (rule path_hollows_inv_mono)
  ultimately show ?thesis using r(2,4) by blast
qed

theorem take_treasures_within_capacity_witness:
  "\<exists>ts st'.
     path_treasure_walk
       ((\<lambda>_. MysticalHollow [])
       (0 := MysticalHollow [(3, \<lparr>tvalue = 27, weight = 9\<rparr>), (2, \<lparr>tvalue = 2, weight = 1\<rparr>),
                             (1, \<lparr>tvalue = 5, weight = 5\<rparr>)]))
       [\<lparr>tile = Tile_str (CHR ''P''), position = \<lparr>row = 0, col = 0\<rparr>, visited = True\<rparr>,
      \<lparr>tile = Tile_hollow 0, position = \<lparr>row = 0, col = 1\<rparr>, visited = True\<rparr>,
      \<lparr>tile = Tile_hollow 0, position = \<lparr>row = 0, col = 2\<rparr>, visited = True\<rparr>] 6 = Inr (ts, st') \<and>
     take_treasures
       ((\<lambda>_. MysticalHollow [])
       (0 := MysticalHollow [(3, \<lparr>tvalue = 27, weight = 9\<rparr>), (2, \<lparr>tvalue = 2, weight = 1\<rparr>),
                             (1, \<lparr>tvalue = 5, weight = 5\<rparr>)]))
       [\<lparr>tile = Tile_str (CHR ''P''), position = \<lparr>row = 0, col = 0\<rparr>, visited = True\<rparr>,
      \<lparr>tile = Tile_hollow 0, position = \<lparr>row = 0, col = 1\<rparr>, visited = True\<rparr>,
      \<lparr>tile = Tile_hollow 0, position = \<lparr>row = 0, col = 2\<rparr>, visited = True\<rparr>] 6 = Inr (if ts = [] then None else Some ts, st') \<and>
     path_hollows_inv st'
       [\<lparr>tile = Tile_str (CHR ''P''), position = \<lparr>row = 0, col = 0\<rparr>, visited = True\<rparr>,
      \<lparr>tile = Tile_hollow 0, position = \<lparr>row = 0, col = 1\<rparr>, visited = True\<rparr>,
      \<lparr>tile = Tile_hollow 0, position = \<lparr>row = 0, col = 2\<rparr>, visited = True\<rparr>] \<and>
     (ts \<noteq> [] \<longrightarrow> sum_list (map weight ts) \<le> 6)"
proof -
  have h: "path_hollows_inv
       ((\<lambda>_. MysticalHollow [])
       (0 := MysticalHollow [(3, \<lparr>tvalue = 27, weight = 9\<rparr>), (2, \<lparr>tvalue = 2, weight = 1\<rparr>),
                             (1, \<lparr>tvalue = 5, weight = 5\<rparr>)]))
       [\<lparr>tile = Tile_str (CHR ''P''), position = \<lparr>row = 0, col = 0\<rparr>, visited = True\<rparr>,
      \<lparr>tile = Tile_hollow 0, position = \<lparr>row = 0, col = 1\<rparr>, visited = True\<rparr>,
      \<lparr>tile = Tile_hollow 0, position = \<lparr>row = 0, col = 2\<rparr>, visited = True\<rparr>]"
    by (simp add: path_hollows_inv_def heap_inv_def parent_def upt_rec)
  show ?thesis by (rule take_treasures_within_capacity[OF h])
qed

text \<open>
  C9: in a maze that \<^verbatim>\<open>load_maze_from_file\<close> returns, the hollow at address 0 is the one
  MysticalHollow made from the first call of \<^verbatim>\<open>gen_treasures\<close>; every hollow tile of
  the grid refers either to it or to a SpookyHollow; a SpookyHollow is referred to by at
  most one cell; and any two cells whose tiles are mystical hollows refer to the same
  address, so that what \<^verbatim>\<open>get_optimal_treasure\<close> leaves behind when called through one
  of them is what the other one reads.
\<close>

theorem load_maze_shares_mystical_hollow:
  assumes "load_maze_from_file T gen lines = Inr (maze, st)"
  shows "new_MysticalHollow (gen 0) = Inr (st 0) \<and>
         (\<forall>c \<in> set (concat (grid maze)). \<forall>r. tile c = Tile_hollow r \<longrightarrow>
              r = 0 \<or> (\<exists>t. st r = SpookyHollow t)) \<and>
         (\<forall>r. 0 < r \<longrightarrow> hollow_count r (grid maze) \<le> 1) \<and>
         (\<forall>c1 \<in> set (concat (grid maze)). \<forall>c2 \<in> set (concat (grid maze)). \<forall>r1 r2 h1 h2.
              tile c1 = Tile_hollow r1 \<and> tile c2 = Tile_hollow r2 \<and>
              st r1 = MysticalHollow h1 \<and> st r2 = MysticalHollow h2 \<longrightarrow>
              r1 = r2 \<and>
              (\<forall>cap res h'. get_optimal_treasure (st r1) cap = Inr (res, h') \<longrightarrow>
                   (st(r1 := h')) r2 = h'))"
proof -
  from load_maze_from_file_parts[OF assms] obtain mh s start first_line where
    mh: "new_MysticalHollow (gen 0) = Inr mh"
    and sc: "scan_lines T gen 0 lines
              \<lparr>l_start = None, l_ends = [], l_walls = [], l_hollows = [],
               l_store = (\<lambda>r. mh), l_count = 1\<rparr> = Inr s"
    and st: "st = l_store s"
    and cg: "create_grid T start (int (length lines)) (int (length (strip first_line)))
              (l_walls s) (l_hollows s) (l_ends s) = Inr (grid maze)"
    by blast
  have "loading_inv mh \<lparr>l_start = None, l_ends = [], l_walls = [], l_hollows = [],
               l_store = (\<lambda>r. mh), l_count = 1\<rparr>"
    by (simp add: loading_inv_def)
  with sc have inv: "loading_inv mh s" by (rule scan_lines_inv)
  note cnt = create_grid_count[OF cg]
  have a: "new_MysticalHollow (gen 0) = Inr (st 0)"
    using mh inv st by (simp add: loading_inv_def)
  have b: "r = 0 \<or> (\<exists>t. st r = SpookyHollow t)"
    if "c \<in> set (concat (grid maze))" "tile c = Tile_hollow r" for c r
  proof (cases "r = 0")
    case True
    then show ?thesis by simp
  next
    case False
    from that have "filter (\<lambda>c. tile c = Tile_hollow r) (concat (grid maze)) \<noteq> []"
      by (auto simp: filter_empty_conv)
    then have "0 < hollow_count r (grid maze)" by (simp add: hollow_count_def)
    with cnt[of r] have "count_list (map fst (l_hollows s)) r \<noteq> 0" by simp
    then have "r \<in> fst ` set (l_hollows s)" by (simp add: count_list_0_iff)
    with inv have "r < l_count s" by (auto simp: loading_inv_def)
    with inv False st show ?thesis by (auto simp: loading_inv_def)
  qed
  have c: "hollow_count r (grid maze) \<le> 1" if "0 < r" for r
  proof -
    from inv that have "count_list (map fst (l_hollows s)) r \<le> 1" by (simp add: loading_inv_def)
    with cnt[of r] show ?thesis by simp
  qed
  have d: "r1 = r2 \<and> (\<forall>cap res h'. get_optimal_treasure (st r1) cap = Inr (res, h') \<longrightarrow>
                   (st(r1 := h')) r2 = h')"
    if "c1 \<in> set (concat (grid maze))" "c2 \<in> set (concat (grid maze))"
      "tile c1 = Tile_hollow r1 \<and> tile c2 = Tile_hollow r2 \<and>
       st r1 = MysticalHollow h1 \<and> st r2 = MysticalHollow h2" for c1 c2 r1 r2 h1 h2
  proof -
    from b[OF that(1), of r1] that(3) have "r1 = 0" by auto
    moreover from b[OF that(2), of r2] that(3) have "r2 = 0" by auto
    ultimately show ?thesis by simp
  qed
  show ?thesis
  proof (intro conjI ballI allI impI)
    show "new_MysticalHollow (gen 0) = Inr (st 0)" by (rule a)
  next
    fix c r assume "c \<in> set (concat (grid maze))" "tile c = Tile_hollow r"
    then show "r = 0 \<or> (\<exists>t. st r = SpookyHollow t)" by (rule b)
  next
    fix r :: nat assume "0 < r"
    then show "hollow_count r (grid maze) \<le> 1" by (rule c)
  next
    fix c1 c2 r1 r2 h1 h2
    assume "c1 \<in> set (concat (grid maze))" "c2 \<in> set (concat (grid maze))"
      "tile c1 = Tile_hollow r1 \<and> tile c2 = Tile_hollow r2 \<and>
       st r1 = MysticalHollow h1 \<and> st r2 = MysticalHollow h2"
    from d[OF this] show "r1 = r2" by (rule conjunct1)
  next
    fix c1 c2 r1 r2 h1 h2 cap res h'
    assume "c1 \<in> set (concat (grid maze))" "c2 \<in> set (concat (grid maze))"
      "tile c1 = Tile_hollow r1 \<and> tile c2 = Tile_hollow r2 \<and>
       st r1 = MysticalHollow h1 \<and> st r2 = MysticalHollow h2"
    from d[OF this] have "r1 = r2" by (rule conjunct1)
    then show "(st(r1 := h')) r2 = h'" by simp
  qed
qed

theorem load_maze_shares_mystical_hollow_witness:
  "\<exists>st.
     load_maze_from_file
       \<lparr>START_POSITION = CHR ''P'', EXIT = CHR ''E'', WALL = CHR ''#'', SPOOKY_HOLLOW = CHR ''S'', MYSTICAL_HOLLOW = CHR ''M'', OTHER = [CHR '' '']\<rparr>
       (\<lambda>k. [\<lparr>tvalue = 3, weight = 2\<rparr>]) [''MPM'' @ [CHR 0x0A], ''SE#''] = Inr
      (\<lparr>start_position = \<lparr>row = 0, col = 1\<rparr>, end_positions = [\<lparr>row = 1, col = 1\<rparr>], rows = 2, cols = 3, grid =
      [[\<lparr>tile = Tile_hollow 0, position = \<lparr>row = 0, col = 0\<rparr>, visited = False\<rparr>,
        \<lparr>tile = Tile_str (CHR ''P''), position = \<lparr>row = 0, col = 1\<rparr>, visited = False\<rparr>,
        \<lparr>tile = Tile_hollow 0, position = \<lparr>row = 0, col = 2\<rparr>, visited = False\<rparr>],
       [\<lparr>tile = Tile_hollow 1, position = \<lparr>row = 1, col = 0\<rparr>, visited = False\<rparr>,
        \<lparr>tile = Tile_str (CHR ''E''), position = \<lparr>row = 1, col = 1\<rparr>, visited = False\<rparr>,
        \<lparr>tile = Tile_str (CHR ''#''), position = \<lparr>row = 1, col = 2\<rparr>, visited = False\<rparr>]]\<rparr>, st) \<and>
     (new_MysticalHollow ((\<lambda>k. [\<lparr>tvalue = 3, weight = 2\<rparr>]) 0) = Inr (st 0) \<and>
      (\<forall>c \<in> set (concat (grid
      \<lparr>start_position = \<lparr>row = 0, col = 1\<rparr>, end_positions = [\<lparr>row = 1, col = 1\<rparr>], rows = 2, cols = 3, grid =
      [[\<lparr>tile = Tile_hollow 0, position = \<lparr>row = 0, col = 0\<rparr>, visited = False\<rparr>,
        \<lparr>tile = Tile_str (CHR ''P''), position = \<lparr>row = 0, col = 1\<rparr>, visited = False\<rparr>,
        \<lparr>tile = Tile_hollow 0, position = \<lparr>row = 0, col = 2\<rparr>, visited = False\<rparr>],
       [\<lparr>tile = Tile_hollow 1, position = \<lparr>row = 1, col = 0\<rparr>, visited = False\<rparr>,
        \<lparr>tile = Tile_str (CHR ''E''), position = \<lparr>row = 1, col = 1\<rparr>, visited = False\<rparr>,
        \<lparr>tile = Tile_str (CHR ''#''), position = \<lparr>row = 1, col = 2\<rparr>, visited = False\<rparr>]]\<rparr>)). \<forall>r. tile c = Tile_hollow r \<longrightarrow>
              r = 0 \<or> (\<exists>t. st r = SpookyHollow t)) \<and>
      (\<forall>r. 0 < r \<longrightarrow> hollow_count r (grid
      \<lparr>start_position = \<lparr>row = 0, col = 1\<rparr>, end_positions = [\<lparr>row = 1, col = 1\<rparr>], rows = 2, cols = 3, grid =
      [[\<lparr>tile = Tile_hollow 0, position = \<lparr>row = 0, col = 0\<rparr>, visited = False\<rparr>,
        \<lparr>tile = Tile_str (CHR ''P''), position = \<lparr>row = 0, col = 1\<rparr>, visited = False\<rparr>,
        \<lparr>tile = Tile_hollow 0, position = \<lparr>row = 0, col = 2\<rparr>, visited = False\<rparr>],
       [\<lparr>tile = Tile_hollow 1, position = \<lparr>row = 1, col = 0\<rparr>, visited = False\<rparr>,
        \<lparr>tile = Tile_str (CHR ''E''), position = \<lparr>row = 1, col = 1\<rparr>, visited = False\<rparr>,
        \<lparr>tile = Tile_str (CHR ''#''), position = \<lparr>row = 1, col = 2\<rparr>, visited = False\<rparr>]]\<rparr>) \<le> 1) \<and>
      (\<forall>c1 \<in> set (concat (grid
      \<lparr>start_position = \<lparr>row = 0, col = 1\<rparr>, end_positions = [\<lparr>row = 1, col = 1\<rparr>], rows = 2, cols = 3, grid =
      [[\<lparr>tile = Tile_hollow 0, position = \<lparr>row = 0, col = 0\<rparr>, visited = False\<rparr>,
        \<lparr>tile = Tile_str (CHR ''P''), position = \<lparr>row = 0, col = 1\<rparr>, visited = False\<rparr>,
        \<lparr>tile = Tile_hollow 0, position = \<lparr>row = 0, col = 2\<rparr>, visited = False\<rparr>],
       [\<lparr>tile = Tile_hollow 1, position = \<lparr>row = 1, col = 0\<rparr>, visited = False\<rparr>,
        \<lparr>tile = Tile_str (CHR ''E''), position = \<lparr>row = 1, col = 1\<rparr>, visited = False\<rparr>,
        \<lparr>tile = Tile_str (CHR ''#''), position = \<lparr>row = 1, col = 2\<rparr>, visited = False\<rparr>]]\<rparr>)). \<forall>c2 \<in> set (concat (grid
      \<lparr>start_position = \<lparr>row = 0, col = 1\<rparr>, end_positions = [\<lparr>row = 1, col = 1\<rparr>], rows = 2, cols = 3, grid =
      [[\<lparr>tile = Tile_hollow 0, position = \<lparr>row = 0, col = 0\<rparr>, visited = False\<rparr>,
        \<lparr>tile = Tile_str (CHR ''P''), position = \<lparr>row = 0, col = 1\<rparr>, visited = False\<rparr>,
        \<lparr>tile = Tile_hollow 0, position = \<lparr>row = 0, col = 2\<rparr>, visited = False\<rparr>],
       [\<lparr>tile = Tile_hollow 1, position = \<lparr>row = 1, col = 0\<rparr>, visited = False\<rparr>,
        \<lparr>tile = Tile_str (CHR ''E''), position = \<lparr>row = 1, col = 1\<rparr>, visited = False\<rparr>,
        \<lparr>tile = Tile_str (CHR ''#''), position = \<lparr>row = 1, col = 2\<rparr>, visited = False\<rparr>]]\<rparr>)). \<forall>r1 r2 h1 h2.
              tile c1 = Tile_hollow r1 \<and> tile c2 = Tile_hollow r2 \<and>
              st r1 = MysticalHollow h1 \<and> st r2 = MysticalHollow h2 \<longrightarrow>
              r1 = r2 \<and>
              (\<forall>cap res h'. get_optimal_treasure (st r1) cap = Inr (res, h') \<longrightarrow>
                   (st(r1 := h')) r2 = h')))"
proof -
  have "map_sum id fst (load_maze_from_file
       \<lparr>START_POSITION = CHR ''P'', EXIT = CHR ''E'', WALL = CHR ''#'', SPOOKY_HOLLOW = CHR ''S'', MYSTICAL_HOLLOW = CHR ''M'', OTHER = [CHR '' '']\<rparr>
       (\<lambda>k. [\<lparr>tvalue = 3, weight = 2\<rparr>]) [''MPM'' @ [CHR 0x0A], ''SE#'']) = Inr
      \<lparr>start_position = \<lparr>row = 0, col = 1\<rparr>, end_positions = [\<lparr>row = 1, col = 1\<rparr>], rows = 2, cols = 3, grid =
      [[\<lparr>tile = Tile_hollow 0, position = \<lparr>row = 0, col = 0\<rparr>, visited = False\<rparr>,
        \<lparr>tile = Tile_str (CHR ''P''), position = \<lparr>row = 0, col = 1\<rparr>, visited = False\<rparr>,
        \<lparr>tile = Tile_hollow 0, position = \<lparr>row = 0, col = 2\<rparr>, visited = False\<rparr>],
       [\<lparr>tile = Tile_hollow 1, position = \<lparr>row = 1, col = 0\<rparr>, visited = False\<rparr>,
        \<lparr>tile = Tile_str (CHR ''E''), position = \<lparr>row = 1, col = 1\<rparr>, visited = False\<rparr>,
        \<lparr>tile = Tile_str (CHR ''#''), position = \<lparr>row = 1, col = 2\<rparr>, visited = False\<rparr>]]\<rparr>"
    by code_simp
  then obtain st where e: "load_maze_from_file
       \<lparr>START_POSITION = CHR ''P'', EXIT = CHR ''E'', WALL = CHR ''#'', SPOOKY_HOLLOW = CHR ''S'', MYSTICAL_HOLLOW = CHR ''M'', OTHER = [CHR '' '']\<rparr>
       (\<lambda>k. [\<lparr>tvalue = 3, weight = 2\<rparr>]) [''MPM'' @ [CHR 0x0A], ''SE#''] = Inr
      (\<lparr>start_position = \<lparr>row = 0, col = 1\<rparr>, end_positions = [\<lparr>row = 1, col = 1\<rparr>], rows = 2, cols = 3, grid =
      [[\<lparr>tile = Tile_hollow 0, position = \<lparr>row = 0, col = 0\<rparr>, visited = False\<rparr>,
        \<lparr>tile = Tile_str (CHR ''P''), position = \<lparr>row = 0, col = 1\<rparr>, visited = False\<rparr>,
        \<lparr>tile = Tile_hollow 0, position = \<lparr>row = 0, col = 2\<rparr>, visited = False\<rparr>],
       [\<lparr>tile = Tile_hollow 1, position = \<lparr>row = 1, col = 0\<rparr>, visited = False\<rparr>,
        \<lparr>tile = Tile_str (CHR ''E''), position = \<lparr>row = 1, col = 1\<rparr>, visited = False\<rparr>,
        \<lparr>tile = Tile_str (CHR ''#''), position = \<lparr>row = 1, col = 2\<rparr>, visited = False\<rparr>]]\<rparr>, st)"
    by (cases "load_maze_from_file
       \<lparr>START_POSITION = CHR ''P'', EXIT = CHR ''E'', WALL = CHR ''#'', SPOOKY_HOLLOW = CHR ''S'', MYSTICAL_HOLLOW = CHR ''M'', OTHER = [CHR '' '']\<rparr>
       (\<lambda>k. [\<lparr>tvalue = 3, weight = 2\<rparr>]) [''MPM'' @ [CHR 0x0A], ''SE#'']") auto
  show ?thesis
    by (rule exI[of _ st], rule conjI[OF e load_maze_shares_mystical_hollow[OF e]])
qed

end
